theory Spec2Isabelle
  imports Complex_Main "HOL-Library.Word" "HOL-Library.Log_Nat"
begin

section \<open>The shredding engine of deldown-Shredder.py\<close>

text \<open>
  The development embeds the class \<open>ShredderEngine\<close> of \<open>deldown-Shredder.py\<close>
  (lines 24 to 121): the table \<open>PATTERNS\<close>, \<open>get_file_size\<close>, \<open>generate_pattern\<close>
  and \<open>shred_file\<close>. Everything the Python code does to its environment is made
  explicit in a record \<open>world\<close>: the file system, the state of the pseudo-random
  generator, a schedule deciding which input/output operation fails, and a log of every
  operation attempted and every progress update handed to the caller.

  Python's unbounded integers are \<open>int\<close>, a \<open>bytes\<close> value is a list of 8-bit words, a
  \<open>str\<close> is a \<open>string\<close>. A Python float is an IEEE double: it is represented by the
  rational number it stands for (or an infinity), and every operation on floats rounds
  its exact result to the nearest double, ties to even.
\<close>

subsection \<open>Exceptions\<close>

datatype exn =
    OSError | ZeroDivisionError | OverflowError | UnicodeEncodeError | RuntimeError
  | KeyboardInterrupt | SystemExit

text \<open>
  \<open>OSError\<close>, \<open>ZeroDivisionError\<close>, \<open>OverflowError\<close>, \<open>UnicodeEncodeError\<close> and
  \<open>RuntimeError\<close> derive from Python's \<open>Exception\<close>; \<open>KeyboardInterrupt\<close> and
  \<open>SystemExit\<close> derive from \<open>BaseException\<close> only, so \<open>except Exception\<close> does
  not catch them.
\<close>

fun is_Exception :: "exn \<Rightarrow> bool" where
  "is_Exception OSError = True"
| "is_Exception ZeroDivisionError = True"
| "is_Exception OverflowError = True"
| "is_Exception UnicodeEncodeError = True"
| "is_Exception RuntimeError = True"
| "is_Exception KeyboardInterrupt = False"
| "is_Exception SystemExit = False"

subsection \<open>Floats\<close>

text \<open>
  The value of a float. Line 115 hands the sink the integer 100, which is the number
  \<open>Finite 100\<close> here.
\<close>

datatype pyfloat = Finite rat | PosInf | NegInf

text \<open>\<open>pow2 e\<close> is 2 to the power \<open>e\<close>, for any integer \<open>e\<close>.\<close>

definition pow2 :: "int \<Rightarrow> rat" where
  "pow2 e = (if 0 \<le> e then 2 ^ nat e else 1 / 2 ^ nat (- e))"

text \<open>Rounding to the nearest integer, a tie going to the even one.\<close>

definition round_half_even :: "rat \<Rightarrow> int" where
  "round_half_even x =
     (let n = \<lfloor>x\<rfloor>; d = x - of_int n
      in if d < 1 / 2 then n else if 1 / 2 < d then n + 1 else if even n then n else n + 1)"

text \<open>The binary exponent of a positive number \<open>x\<close>: the \<open>e\<close> with
  \<open>2^e \<le> x < 2^(e+1)\<close>, found from the bit lengths of numerator and denominator.\<close>

definition exponent2 :: "rat \<Rightarrow> int" where
  "exponent2 x =
     (case quotient_of x of
        (p, q) \<Rightarrow> (if pow2 (bitlen p - bitlen q) \<le> x then bitlen p - bitlen q
                   else bitlen p - bitlen q - 1))"

text \<open>
  The double nearest to \<open>x\<close>, ties to even, as long as the exponent range is not
  exceeded above: doubles have 53 significant bits, so around \<open>x\<close> they are the
  multiples of \<open>2^(e - 52)\<close>, where \<open>e\<close> is the exponent of \<open>x\<close> and at least
  \<open>-1022\<close> (below that the doubles are subnormal and equally spaced).
\<close>

definition round_double :: "rat \<Rightarrow> rat" where
  "round_double x =
     (if x = 0 then 0
      else of_int (round_half_even (x / pow2 (max (exponent2 \<bar>x\<bar>) (- 1022) - 52)))
             * pow2 (max (exponent2 \<bar>x\<bar>) (- 1022) - 52))"

text \<open>The largest double.\<close>

definition max_double :: rat where
  "max_double = (2 ^ 53 - 1) * 2 ^ 971"

text \<open>
  \<open>a / b\<close> on integers (true division): the correctly rounded quotient;
  \<open>ZeroDivisionError\<close> for a zero divisor and \<open>OverflowError\<close> when the result is too
  large for a float.
\<close>

definition true_divide :: "int \<Rightarrow> int \<Rightarrow> exn + rat" where
  "true_divide a b =
     (if b = 0 then Inl ZeroDivisionError
      else if max_double < \<bar>round_double (of_int a / of_int b)\<bar> then Inl OverflowError
      else Inr (round_double (of_int a / of_int b)))"

text \<open>\<open>x * y\<close> on floats: the rounded product, an infinity when it is out of range.\<close>

definition float_times :: "rat \<Rightarrow> rat \<Rightarrow> pyfloat" where
  "float_times x y =
     (if max_double < round_double (x * y) then PosInf
      else if round_double (x * y) < - max_double then NegInf
      else Finite (round_double (x * y)))"

subsection \<open>The environment\<close>

type_synonym byte = "8 word"

datatype node = File "byte list" | Dir | Special

datatype call =
    Stat string
  | Open string
  | Write string nat "byte list"
  | Flush string
  | Fsync string
  | Close string
  | Rename string string
  | Remove string

datatype event = Sys call bool | Progress pyfloat string

record world =
  fs :: "string \<rightharpoonup> node"
  rng :: "nat \<Rightarrow> nat"
  drawn :: nat
  faults :: "nat \<Rightarrow> bool"
  clock :: nat
  calls :: nat
  log :: "event list"
  stdout :: "string \<Rightarrow> exn option"
  str_exn :: "exn \<Rightarrow> string"
  printed :: "string list"

text \<open>
  \<open>rng w\<close> is the sequence of raw values the generator of module \<open>random\<close> will
  deliver and \<open>drawn w\<close> says how many were consumed. \<open>faults w n\<close> says that the
  \<open>n\<close>-th operation attempted on the operating system fails for an external reason
  (device error, file removed by another process); \<open>clock w\<close> counts the attempts.
  \<open>calls w\<close> counts the invocations of the progress sink. \<open>stdout w line\<close> says what
  \<open>print\<close> does with a line: \<open>None\<close> when it is written, the exception when
  \<open>sys.stdout\<close> refuses it (a \<open>UnicodeEncodeError\<close> for text its encoding does not
  have, an \<open>OSError\<close> for a closed pipe); \<open>printed w\<close> holds the lines written.
  \<open>str_exn w e\<close> is the text \<open>str(e)\<close> of an exception.

  An operation is attempted, logged with its outcome, and succeeds when it is feasible
  in the current file system and the schedule does not make it fail.
\<close>

definition attempt :: "call \<Rightarrow> bool \<Rightarrow> world \<Rightarrow> bool \<times> world" where
  "attempt c feasible w =
     (let ok = (feasible \<and> \<not> faults w (clock w))
      in (ok, w\<lparr>clock := Suc (clock w), log := log w @ [Sys c ok]\<rparr>))"

definition and_then ::
  "(exn + 'a) \<times> world \<Rightarrow> ('a \<Rightarrow> world \<Rightarrow> (exn + 'b) \<times> world) \<Rightarrow> (exn + 'b) \<times> world" where
  "and_then r f = (case r of (Inl e, w) \<Rightarrow> (Inl e, w) | (Inr x, w) \<Rightarrow> f x w)"

subsection \<open>Paths (posixpath)\<close>

definition rstrip_sep :: "string \<Rightarrow> string" where
  "rstrip_sep s = rev (dropWhile (\<lambda>c. c = CHR ''/'') (rev s))"

text \<open>\<open>os.path.dirname\<close>: the part up to the last separator, without trailing
  separators unless it consists of separators only.\<close>

definition os_path_dirname :: "string \<Rightarrow> string" where
  "os_path_dirname p =
     (let head = rev (dropWhile (\<lambda>c. c \<noteq> CHR ''/'') (rev p))
      in if head \<noteq> [] \<and> \<not> (\<forall>c \<in> set head. c = CHR ''/'') then rstrip_sep head else head)"

definition os_path_basename :: "string \<Rightarrow> string" where
  "os_path_basename p = rev (takeWhile (\<lambda>c. c \<noteq> CHR ''/'') (rev p))"

text \<open>\<open>os.path.join\<close> of two components.\<close>

definition os_path_join :: "string \<Rightarrow> string \<Rightarrow> string" where
  "os_path_join a b =
     (if b \<noteq> [] \<and> hd b = CHR ''/'' then b
      else if a = [] \<or> last a = CHR ''/'' then a @ b
      else a @ ''/'' @ b)"

subsection \<open>Operations on the file system\<close>

definition os_path_isfile :: "world \<Rightarrow> string \<Rightarrow> bool" where
  "os_path_isfile w p = (case fs w p of Some (File c) \<Rightarrow> True | _ \<Rightarrow> False)"

text \<open>\<open>get_file_size\<close> is \<open>os.path.getsize\<close>. The model knows the size of regular
  files only; \<open>shred_file\<close> calls it after \<open>os.path.isfile\<close> has answered yes.\<close>

definition get_file_size :: "string \<Rightarrow> world \<Rightarrow> (exn + int) \<times> world" where
  "get_file_size filepath w =
     (let (ok, w') = attempt (Stat filepath) (os_path_isfile w filepath) w
      in if ok then
           (case fs w filepath of
              Some (File c) \<Rightarrow> (Inr (int (length c)), w')
            | _ \<Rightarrow> (Inl OSError, w'))
         else (Inl OSError, w'))"

record handle =
  hpath :: string
  pos :: nat

definition os_open :: "string \<Rightarrow> world \<Rightarrow> (exn + handle) \<times> world" where
  "os_open filepath w =
     (let (ok, w') = attempt (Open filepath) (os_path_isfile w filepath) w
      in if ok then (Inr \<lparr>hpath = filepath, pos = 0\<rparr>, w') else (Inl OSError, w'))"

text \<open>Writing \<open>data\<close> at position \<open>p\<close> replaces the bytes there and extends the
  content when the data reaches beyond its end.\<close>

definition write_at :: "byte list \<Rightarrow> nat \<Rightarrow> byte list \<Rightarrow> byte list" where
  "write_at content p data = take p content @ data @ drop (p + length data) content"

definition f_write :: "handle \<Rightarrow> byte list \<Rightarrow> world \<Rightarrow> (exn + handle) \<times> world" where
  "f_write h data w =
     (let (ok, w') = attempt (Write (hpath h) (pos h) data) (os_path_isfile w (hpath h)) w
      in if ok then
           (case fs w (hpath h) of
              Some (File c) \<Rightarrow>
                (Inr (h\<lparr>pos := pos h + length data\<rparr>),
                 w'\<lparr>fs := (fs w')(hpath h \<mapsto> File (write_at c (pos h) data))\<rparr>)
            | _ \<Rightarrow> (Inl OSError, w'))
         else (Inl OSError, w'))"

definition f_flush :: "handle \<Rightarrow> world \<Rightarrow> (exn + unit) \<times> world" where
  "f_flush h w =
     (let (ok, w') = attempt (Flush (hpath h)) True w
      in if ok then (Inr (), w') else (Inl OSError, w'))"

definition os_fsync :: "handle \<Rightarrow> world \<Rightarrow> (exn + unit) \<times> world" where
  "os_fsync h w =
     (let (ok, w') = attempt (Fsync (hpath h)) True w
      in if ok then (Inr (), w') else (Inl OSError, w'))"

definition f_close :: "handle \<Rightarrow> world \<Rightarrow> (exn + unit) \<times> world" where
  "f_close h w =
     (let (ok, w') = attempt (Close (hpath h)) True w
      in if ok then (Inr (), w') else (Inl OSError, w'))"

text \<open>\<open>os.rename\<close> (POSIX): the source must exist, a directory and a non-directory
  do not replace each other, an existing target is replaced, and renaming a path to
  itself does nothing.\<close>

definition rename_ok :: "world \<Rightarrow> string \<Rightarrow> string \<Rightarrow> bool" where
  "rename_ok w src dst =
     (case fs w src of
        None \<Rightarrow> False
      | Some n \<Rightarrow> (src = dst \<or> (case fs w dst of None \<Rightarrow> True | Some m \<Rightarrow> n \<noteq> Dir \<and> m \<noteq> Dir)))"

definition os_rename :: "string \<Rightarrow> string \<Rightarrow> world \<Rightarrow> (exn + unit) \<times> world" where
  "os_rename src dst w =
     (let (ok, w') = attempt (Rename src dst) (rename_ok w src dst) w
      in if ok then
           (Inr (), if src = dst then w' else w'\<lparr>fs := (fs w')(dst := fs w src, src := None)\<rparr>)
         else (Inl OSError, w'))"

definition os_remove :: "string \<Rightarrow> world \<Rightarrow> (exn + unit) \<times> world" where
  "os_remove p w =
     (let (ok, w') = attempt (Remove p) (fs w p \<noteq> None \<and> fs w p \<noteq> Some Dir) w
      in if ok then (Inr (), w'\<lparr>fs := (fs w')(p := None)\<rparr>) else (Inl OSError, w'))"

subsection \<open>Module random\<close>

definition randint :: "int \<Rightarrow> int \<Rightarrow> world \<Rightarrow> int \<times> world" where
  "randint lo hi w =
     (lo + int (rng w (drawn w) mod nat (hi - lo + 1)), w\<lparr>drawn := Suc (drawn w)\<rparr>)"

primrec random_choices :: "'a list \<Rightarrow> nat \<Rightarrow> world \<Rightarrow> 'a list \<times> world" where
  "random_choices population 0 w = ([], w)"
| "random_choices population (Suc k) w =
     (let x = population ! (rng w (drawn w) mod length population);
          (xs, w') = random_choices population k (w\<lparr>drawn := Suc (drawn w)\<rparr>)
      in (x # xs, w'))"

subsection \<open>ShredderEngine\<close>

definition PATTERNS :: "(string \<times> int) list" where
  "PATTERNS = [(''quick'', 1), (''secure'', 3), (''dod'', 7), (''gutmann'', 35)]"

text \<open>\<open>PATTERNS.get(method, 3)\<close>\<close>

definition PATTERNS_get :: "string \<Rightarrow> int \<Rightarrow> int" where
  "PATTERNS_get method dflt = (case map_of PATTERNS method of None \<Rightarrow> dflt | Some n \<Rightarrow> n)"

text \<open>The list comprehension \<open>[random.randint(0, 255) for _ in range(size)]\<close>,
  converted by \<open>bytes\<close>.\<close>

primrec random_bytes :: "nat \<Rightarrow> world \<Rightarrow> byte list \<times> world" where
  "random_bytes 0 w = ([], w)"
| "random_bytes (Suc n) w =
     (let (b, w1) = randint 0 255 w;
          (bs, w2) = random_bytes n w1
      in (word_of_int b # bs, w2))"

text \<open>\<open>[0x00] * size\<close> is the empty list when \<open>size\<close> is negative, as is
  \<open>range(size)\<close>; the parameter \<open>size\<close> is called \<open>sz\<close> here.\<close>

definition generate_pattern :: "int \<Rightarrow> int \<Rightarrow> world \<Rightarrow> byte list \<times> world" where
  "generate_pattern sz pass_num w =
     (if pass_num mod 3 = 0 then (replicate (nat sz) 0x00, w)
      else if pass_num mod 3 = 1 then (replicate (nat sz) 0xFF, w)
      else random_bytes (nat sz) w)"

text \<open>\<open>str\<close> of an integer.\<close>

fun str_nat :: "nat \<Rightarrow> string" where
  "str_nat n =
     (if n < 10 then [char_of (48 + n)]
      else str_nat (n div 10) @ [char_of (48 + n mod 10)])"

definition str_int :: "int \<Rightarrow> string" where
  "str_int i = (if i < 0 then CHR ''-'' # str_nat (nat (- i)) else str_nat (nat i))"

text \<open>
  The progress sink is the caller's \<open>progress_callback\<close>. It is given the number of
  earlier invocations (its own state), the percentage and the label, and either returns
  (\<open>None\<close>) or raises. \<open>None\<close> as a callback is Python's \<open>None\<close>.
\<close>

type_synonym sink = "nat \<Rightarrow> pyfloat \<Rightarrow> string \<Rightarrow> exn option"

definition invoke :: "sink \<Rightarrow> pyfloat \<Rightarrow> string \<Rightarrow> world \<Rightarrow> (exn + unit) \<times> world" where
  "invoke s v label w =
     (let w' = w\<lparr>calls := Suc (calls w), log := log w @ [Progress v label]\<rparr>
      in case s (calls w) v label of None \<Rightarrow> (Inr (), w') | Some e \<Rightarrow> (Inl e, w'))"

text \<open>Lines 96 and 97: an integer division, then a multiplication of floats.\<close>

definition percent :: "int \<Rightarrow> int \<Rightarrow> int \<Rightarrow> int \<Rightarrow> exn + pyfloat" where
  "percent pass_num file_size bytes_written passes =
     (case true_divide (pass_num * file_size + bytes_written) (passes * file_size) of
        Inl e \<Rightarrow> Inl e
      | Inr d \<Rightarrow> Inr (float_times d 100))"

text \<open>Line 98: the f-string \<open>f"Durchgang {pass_num + 1}/{passes}"\<close>.\<close>

definition status_label :: "int \<Rightarrow> int \<Rightarrow> string" where
  "status_label pass_num passes =
     ''Durchgang '' @ str_int (pass_num + 1) @ ''/'' @ str_int passes"

text \<open>Lines 95 to 99: the progress update after a chunk.\<close>

definition update_progress ::
  "sink option \<Rightarrow> int \<Rightarrow> int \<Rightarrow> int \<Rightarrow> int \<Rightarrow> world \<Rightarrow> (exn + unit) \<times> world" where
  "update_progress progress_callback pass_num file_size bytes_written passes w =
     (case progress_callback of
        None \<Rightarrow> (Inr (), w)
      | Some s \<Rightarrow>
          (case percent pass_num file_size bytes_written passes of
             Inl e \<Rightarrow> (Inl e, w)
           | Inr total_progress \<Rightarrow> invoke s total_progress (status_label pass_num passes) w))"

text \<open>Lines 83 to 99: the body of the \<open>while\<close> loop. It returns the file object and
  the new value of \<open>bytes_written\<close>.\<close>

definition chunk_step ::
  "sink option \<Rightarrow> int \<Rightarrow> int \<Rightarrow> int \<Rightarrow> int \<Rightarrow> handle \<Rightarrow> int \<Rightarrow> world
     \<Rightarrow> (exn + handle \<times> int) \<times> world" where
  "chunk_step progress_callback chunk_size file_size pass_num passes f bytes_written w =
     (let remaining = file_size - bytes_written;
          current_chunk = min chunk_size remaining;
          (pattern, w1) = generate_pattern current_chunk pass_num w
      in and_then (f_write f pattern w1) (\<lambda>f' w2.
         and_then (f_flush f' w2) (\<lambda>_ w3.
         and_then (os_fsync f' w3) (\<lambda>_ w4.
         and_then (update_progress progress_callback pass_num file_size
                     (bytes_written + current_chunk) passes w4) (\<lambda>_ w5.
         (Inr (f', bytes_written + current_chunk), w5))))))"

text \<open>Lines 82 to 99: the \<open>while\<close> loop. It need not terminate (a chunk size of zero
  never advances), so the result is an option and \<open>None\<close> stands for a loop that runs
  forever.\<close>

partial_function (option) chunk_loop ::
  "sink option \<Rightarrow> int \<Rightarrow> int \<Rightarrow> int \<Rightarrow> int \<Rightarrow> handle \<Rightarrow> int \<Rightarrow> world
     \<Rightarrow> ((exn + int) \<times> world) option" where
  "chunk_loop progress_callback chunk_size file_size pass_num passes f bytes_written w =
     (if bytes_written < file_size then
        (case chunk_step progress_callback chunk_size file_size pass_num passes f bytes_written w of
           (Inl e, w') \<Rightarrow> Some (Inl e, w')
         | (Inr (f', bytes_written'), w') \<Rightarrow>
             chunk_loop progress_callback chunk_size file_size pass_num passes f' bytes_written' w')
      else Some (Inr bytes_written, w))"

declare chunk_loop.simps [code]

text \<open>Lines 79 to 99: one pass. The \<open>with\<close> statement closes the file on every way
  out of its body; an exception raised by closing replaces the one under way.\<close>

definition one_pass ::
  "string \<Rightarrow> sink option \<Rightarrow> int \<Rightarrow> int \<Rightarrow> int \<Rightarrow> int \<Rightarrow> world \<Rightarrow> ((exn + unit) \<times> world) option" where
  "one_pass filepath progress_callback chunk_size file_size passes pass_num w =
     (case os_open filepath w of
        (Inl e, w1) \<Rightarrow> Some (Inl e, w1)
      | (Inr f, w1) \<Rightarrow>
          (case chunk_loop progress_callback chunk_size file_size pass_num passes f 0 w1 of
             None \<Rightarrow> None
           | Some (r, w2) \<Rightarrow>
               (case f_close f w2 of
                  (Inl e', w3) \<Rightarrow> Some (Inl e', w3)
                | (Inr _, w3) \<Rightarrow> Some (case r of Inl e \<Rightarrow> Inl e | Inr _ \<Rightarrow> Inr (), w3))))"

text \<open>Line 78: \<open>for pass_num in range(passes)\<close>, as a loop over the passes still to
  run.\<close>

primrec pass_loop ::
  "string \<Rightarrow> sink option \<Rightarrow> int \<Rightarrow> int \<Rightarrow> int \<Rightarrow> int \<Rightarrow> nat \<Rightarrow> world
     \<Rightarrow> ((exn + unit) \<times> world) option" where
  "pass_loop filepath progress_callback chunk_size file_size passes pass_num 0 w = Some (Inr (), w)"
| "pass_loop filepath progress_callback chunk_size file_size passes pass_num (Suc todo) w =
     (case one_pass filepath progress_callback chunk_size file_size passes pass_num w of
        None \<Rightarrow> None
      | Some (Inl e, w') \<Rightarrow> Some (Inl e, w')
      | Some (Inr _, w') \<Rightarrow>
          pass_loop filepath progress_callback chunk_size file_size passes (pass_num + 1) todo w')"

text \<open>Lines 105 to 109: the renaming loop, \<open>n\<close> renames still to do. The local
  \<open>new_path\<close> is \<open>os.path.join(directory, new_name)\<close>.\<close>

primrec rename_loop :: "nat \<Rightarrow> string \<Rightarrow> string \<Rightarrow> world \<Rightarrow> (exn + string) \<times> world" where
  "rename_loop 0 directory current_path w = (Inr current_path, w)"
| "rename_loop (Suc n) directory current_path w =
     (case random_choices ''0123456789abcdef'' 32 w of
        (new_name, w1) \<Rightarrow>
          (case os_rename current_path (os_path_join directory new_name) w1 of
             (Inl e, w2) \<Rightarrow> (Inl e, w2)
           | (Inr _, w2) \<Rightarrow> rename_loop n directory (os_path_join directory new_name) w2))"

text \<open>Lines 114 and 115.\<close>

definition final_progress :: "sink option \<Rightarrow> world \<Rightarrow> (exn + unit) \<times> world" where
  "final_progress progress_callback w =
     (case progress_callback of
        None \<Rightarrow> (Inr (), w)
      | Some s \<Rightarrow> invoke s (Finite 100) ''Fertig!'' w)"

text \<open>Lines 101 to 117: what follows the passes. The local \<open>directory\<close> is
  \<open>os.path.dirname(filepath)\<close>.\<close>

definition obfuscate_and_delete ::
  "string \<Rightarrow> sink option \<Rightarrow> world \<Rightarrow> (exn + bool) \<times> world" where
  "obfuscate_and_delete filepath progress_callback w =
     and_then (rename_loop 3 (os_path_dirname filepath) filepath w) (\<lambda>current_path w1.
     and_then (os_remove current_path w1) (\<lambda>_ w2.
     and_then (final_progress progress_callback w2) (\<lambda>_ w3.
     (Inr True, w3))))"

text \<open>Lines 71 to 117: the body of the \<open>try\<close> statement.\<close>

definition shred_body ::
  "world \<Rightarrow> string \<Rightarrow> string \<Rightarrow> sink option \<Rightarrow> int \<Rightarrow> ((exn + bool) \<times> world) option" where
  "shred_body w filepath method progress_callback chunk_size =
     (if \<not> os_path_isfile w filepath then Some (Inr False, w)
      else
        (case get_file_size filepath w of
           (Inl e, w1) \<Rightarrow> Some (Inl e, w1)
         | (Inr file_size, w1) \<Rightarrow>
             (let passes = PATTERNS_get method 3
              in case pass_loop filepath progress_callback chunk_size file_size passes
                        0 (nat passes) w1 of
                   None \<Rightarrow> None
                 | Some (Inl e, w2) \<Rightarrow> Some (Inl e, w2)
                 | Some (Inr _, w2) \<Rightarrow> Some (obfuscate_and_delete filepath progress_callback w2))))"

text \<open>Line 120: the handler prints \<open>f"Error shredding {filepath}: {e}"\<close>.\<close>

definition error_line :: "world \<Rightarrow> string \<Rightarrow> exn \<Rightarrow> string" where
  "error_line w filepath e = ''Error shredding '' @ filepath @ '': '' @ str_exn w e"

definition print_line :: "string \<Rightarrow> world \<Rightarrow> (exn + unit) \<times> world" where
  "print_line text w =
     (case stdout w text of
        None \<Rightarrow> (Inr (), w\<lparr>printed := printed w @ [text]\<rparr>)
      | Some e \<Rightarrow> (Inl e, w))"

text \<open>
  What the caller of \<open>shred_file\<close> observes: a boolean, or an exception. An exception
  passes when \<open>except Exception\<close> does not catch it, and when it is raised inside the
  handler, by \<open>print\<close>.
\<close>

datatype outcome = Returned bool | Propagated exn

text \<open>Lines 119 to 121: the handler.\<close>

definition except_handler :: "string \<Rightarrow> exn \<Rightarrow> world \<Rightarrow> outcome \<times> world" where
  "except_handler filepath e w =
     (if is_Exception e then
        (case print_line (error_line w filepath e) w of
           (Inl e', w') \<Rightarrow> (Propagated e', w')
         | (Inr _, w') \<Rightarrow> (Returned False, w'))
      else (Propagated e, w))"

definition shred_file ::
  "world \<Rightarrow> string \<Rightarrow> string \<Rightarrow> sink option \<Rightarrow> int \<Rightarrow> (outcome \<times> world) option" where
  "shred_file w filepath method progress_callback chunk_size =
     (case shred_body w filepath method progress_callback chunk_size of
        None \<Rightarrow> None
      | Some (Inr b, w') \<Rightarrow> Some (Returned b, w')
      | Some (Inl e, w') \<Rightarrow> Some (except_handler filepath e w'))"

subsection \<open>Reading the log\<close>

text \<open>The events a run added to the log: the run started in \<open>w\<close> and ended in
  \<open>w'\<close>.\<close>

definition events_since :: "world \<Rightarrow> world \<Rightarrow> event list" where
  "events_since w w' = drop (length (log w)) (log w')"

text \<open>The percentages handed to the progress sink, in order.\<close>

fun progress_values :: "event list \<Rightarrow> pyfloat list" where
  "progress_values [] = []"
| "progress_values (Progress v label # es) = v # progress_values es"
| "progress_values (Sys c ok # es) = progress_values es"

text \<open>The operations of the overwriting loop: write, flush and durability sync.\<close>

fun is_overwrite :: "call \<Rightarrow> bool" where
  "is_overwrite (Write p off data) = True"
| "is_overwrite (Flush p) = True"
| "is_overwrite (Fsync p) = True"
| "is_overwrite c = False"

text \<open>An operation that was attempted and failed.\<close>

fun failed :: "event \<Rightarrow> bool" where
  "failed (Sys c ok) = (\<not> ok)"
| "failed (Progress v label) = False"

text \<open>An attempt to rename or to remove, successful or not.\<close>

fun obfuscation :: "event \<Rightarrow> bool" where
  "obfuscation (Sys (Rename src dst) ok) = True"
| "obfuscation (Sys (Remove p) ok) = True"
| "obfuscation e = False"



subsection \<open>Example worlds\<close>

definition example_world :: world where
  "example_world =
     \<lparr>fs = [''/d'' \<mapsto> Dir, ''/d/f'' \<mapsto> File [1, 2, 3, 4, 5], ''/d/empty'' \<mapsto> File [],
            ''/dev/null'' \<mapsto> Special],
      rng = (\<lambda>n. 7 * n + 3), drawn = 0, faults = (\<lambda>n. False), clock = 0, calls = 0, log = [],
      stdout = (\<lambda>line. None), str_exn = (\<lambda>e. ''error''), printed = []\<rparr>"

definition quiet_sink :: sink where
  "quiet_sink = (\<lambda>i v label. None)"


text \<open>What the loop over the chunks logs while nothing goes wrong: successful writes,
  flushes and syncs, and progress updates.\<close>

fun chunk_event :: "event \<Rightarrow> bool" where
  "chunk_event (Sys c ok) = (ok \<and> is_overwrite c)"
| "chunk_event (Progress v label) = True"

text \<open>A write, flush or durability sync that failed.\<close>

fun failed_overwrite :: "event \<Rightarrow> bool" where
  "failed_overwrite (Sys c ok) = (\<not> ok \<and> is_overwrite c)"
| "failed_overwrite (Progress v label) = False"

text \<open>The number of passes begun: each pass opens the file once.\<close>

fun passes_started :: "event list \<Rightarrow> nat" where
  "passes_started [] = 0"
| "passes_started (Sys (Open p) True # es) = Suc (passes_started es)"
| "passes_started (e # es) = passes_started es"

text \<open>
  What holds of the events \<open>evs\<close> logged by the passes, given their result \<open>r\<close>:
  nothing is renamed or removed; a normal end means that no operation failed; an
  exception is an \<open>Exception\<close> or comes from the progress sink; and when a write,
  flush or sync failed, the result is \<open>OSError\<close> and the failure is followed by the
  closing of the file and nothing else.
\<close>

definition pass_phase :: "string \<Rightarrow> sink option \<Rightarrow> exn + unit \<Rightarrow> event list \<Rightarrow> bool" where
  "pass_phase p cb r evs \<longleftrightarrow>
     (\<forall>x\<in>set evs. \<not> obfuscation x) \<and>
     (r = Inr () \<longrightarrow> (\<forall>x\<in>set evs. \<not> failed x)) \<and>
     (\<forall>e. r = Inl e \<longrightarrow> is_Exception e \<or> (\<exists>s i v l. cb = Some s \<and> s i v l = Some e)) \<and>
     ((\<exists>x\<in>set evs. failed_overwrite x) \<longrightarrow>
        r = Inl OSError \<and>
        (\<exists>pre c b. evs = pre @ [Sys c False, Sys (Close p) b] \<and> is_overwrite c \<and>
           (\<forall>x\<in>set pre. \<not> failed x)))"

text \<open>
  The name that \<open>random.choices('0123456789abcdef', k=32)\<close> builds from the outputs
  \<open>k, \<dots>, k + 31\<close> of the generator \<open>g\<close>, the targets of \<open>n\<close> successive renames in
  directory \<open>d\<close> when the generator stands at output \<open>k\<close>, and the log of a chain of
  successful renames through given targets.
\<close>

definition draw_name :: "(nat \<Rightarrow> nat) \<Rightarrow> nat \<Rightarrow> string" where
  "draw_name g k = map (\<lambda>i. ''0123456789abcdef'' ! (g (k + i) mod 16)) [0..<32]"

definition targets :: "string \<Rightarrow> (nat \<Rightarrow> nat) \<Rightarrow> nat \<Rightarrow> nat \<Rightarrow> string list" where
  "targets d g k n = map (\<lambda>j. os_path_join d (draw_name g (k + 32 * j))) [0..<n]"

fun rename_events :: "string \<Rightarrow> string list \<Rightarrow> event list" where
  "rename_events cur [] = []"
| "rename_events cur (t # ts) = Sys (Rename cur t) True # rename_events t ts"

text \<open>The example world with a device that fails the eleventh operation: with chunks of
  three bytes that is the first write of the second pass.\<close>

definition faulty_world :: world where
  "faulty_world = example_world\<lparr>faults := (\<lambda>n. n = 10)\<rparr>"

text \<open>A world whose generator delivers zeros only, and in it a file whose name is
  thirty-two zeros.\<close>

definition collision_world :: world where
  "collision_world =
     \<lparr>fs = [''/d'' \<mapsto> Dir, ''/d/00000000000000000000000000000000'' \<mapsto> File [7]],
      rng = (\<lambda>n. 0), drawn = 0, faults = (\<lambda>n. False), clock = 0, calls = 0, log = [],
      stdout = (\<lambda>line. None), str_exn = (\<lambda>e. ''error''), printed = []\<rparr>"



text \<open>A world with a file of twenty bytes, and that file opened for a pass.\<close>

definition twenty_world :: world where
  "twenty_world = example_world\<lparr>fs := (fs example_world)(''/d/g'' \<mapsto> File (replicate 20 1))\<rparr>"

definition twenty_handle :: handle where
  "twenty_handle = \<lparr>hpath = ''/d/g'', pos = 0\<rparr>"

text \<open>A standard output with the ASCII encoding: \<open>print\<close> raises \<open>UnicodeEncodeError\<close>
  on a line that holds any other character. A file whose name holds the byte \<open>0xE9\<close>, in
  a world with that standard output where the first write (the third operation) fails.\<close>

definition ascii_stdout :: "string \<Rightarrow> exn option" where
  "ascii_stdout line =
     (if list_all (\<lambda>c. (of_char c :: nat) < 128) line then None else Some UnicodeEncodeError)"

definition accented_path :: string where
  "accented_path = ''/d/caf'' @ [CHR 0xE9]"

definition ascii_world :: world where
  "ascii_world =
     example_world\<lparr>fs := (fs example_world)(accented_path \<mapsto> File [1, 2, 3]),
                   faults := (\<lambda>n. n = 2), stdout := ascii_stdout\<rparr>"

section \<open>Properties\<close>

subsection \<open>Rounding to a double is monotone\<close>

lemma pow2_pos: "0 < pow2 e"
  by (simp add: pow2_def)

lemma pow2_add: "pow2 (a + b) = pow2 a * pow2 b"
proof -
  have "pow2 e = 2 powi e" for e
    by (simp add: pow2_def power_int_def field_simps)
  then show ?thesis by (simp add: power_int_add)
qed

lemma pow2_nat: "0 \<le> e \<Longrightarrow> pow2 e = 2 ^ nat e"
  by (simp add: pow2_def)

lemma pow2_mono: "a \<le> b \<Longrightarrow> pow2 a \<le> pow2 b"
proof -
  assume "a \<le> b"
  then have "pow2 b = pow2 a * pow2 (b - a)" using pow2_add [of a "b - a"] by simp
  moreover from \<open>a \<le> b\<close> have "1 \<le> pow2 (b - a)" by (simp add: pow2_nat)
  ultimately show ?thesis using pow2_pos [of a] by (simp add: mult_le_cancel_left1)
qed

lemma round_half_even_of_int: "round_half_even (of_int n) = n"
  by (simp add: round_half_even_def)

lemma round_half_even_range:
  "round_half_even x = \<lfloor>x\<rfloor> \<or> round_half_even x = \<lfloor>x\<rfloor> + 1"
  by (simp add: round_half_even_def Let_def)

lemma round_half_even_mono:
  assumes "x \<le> y"
  shows "round_half_even x \<le> round_half_even y"
proof (cases "\<lfloor>x\<rfloor> = \<lfloor>y\<rfloor>")
  case False
  with assms have "\<lfloor>x\<rfloor> < \<lfloor>y\<rfloor>" using floor_mono [of x y] by linarith
  with round_half_even_range [of x] round_half_even_range [of y] show ?thesis by linarith
next
  case True
  with assms have "x - of_int \<lfloor>x\<rfloor> \<le> y - of_int \<lfloor>y\<rfloor>" by simp
  with True show ?thesis by (auto simp: round_half_even_def Let_def)
qed

lemma quotient_of_pos:
  assumes "0 < x" and "quotient_of x = (p, q)"
  shows "0 < p" "0 < q" "x = of_int p / of_int q"
proof -
  from assms(2) show q: "0 < q" by (rule quotient_of_denom_pos)
  from assms(2) show x: "x = of_int p / of_int q" by (rule quotient_of_div)
  from assms(1) x q show "0 < p" by (simp add: zero_less_divide_iff)
qed

lemma exponent2_bounds:
  assumes "0 < x"
  shows "pow2 (exponent2 x) \<le> x" and "x < pow2 (exponent2 x + 1)"
proof -
  obtain p q where pq: "quotient_of x = (p, q)" by (cases "quotient_of x") auto
  note a = quotient_of_pos [OF assms pq]
  let ?e = "bitlen p - bitlen q"
  from bitlen_bounds [OF a(1)] have p: "2 ^ nat (bitlen p - 1) \<le> p" "p < 2 ^ nat (bitlen p)" by simp_all
  from bitlen_bounds [OF a(2)] have q: "2 ^ nat (bitlen q - 1) \<le> q" "q < 2 ^ nat (bitlen q)" by simp_all
  from a(1) have lp: "1 \<le> bitlen p" using bitlen_nonneg [of p] bitlen_eq_zero_iff [of p] by linarith
  from a(2) have lq: "1 \<le> bitlen q" using bitlen_nonneg [of q] bitlen_eq_zero_iff [of q] by linarith
  have cast: "(2 ^ k \<le> n) = ((2::rat) ^ k \<le> of_int n)" "(n < 2 ^ k) = (of_int n < (2::rat) ^ k)"
    for k and n :: int
  proof -
    have "(2::rat) ^ k = of_int (2 ^ k)" by simp
    then show "(2 ^ k \<le> n) = ((2::rat) ^ k \<le> of_int n)" by (simp only: of_int_le_iff)
    have "(2::rat) ^ k = of_int (2 ^ k)" by simp
    then show "(n < 2 ^ k) = (of_int n < (2::rat) ^ k)" by (simp only: of_int_less_iff)
  qed
  have P1: "pow2 (bitlen p - 1) \<le> of_int p" using p(1) lp by (simp only: pow2_nat cast)
  have P2: "of_int p < pow2 (bitlen p)" using p(2) lp by (simp only: pow2_nat cast)
  have Q1: "pow2 (bitlen q - 1) \<le> of_int q" using q(1) lq by (simp only: pow2_nat cast)
  have Q2: "of_int q < pow2 (bitlen q)" using q(2) lq by (simp only: pow2_nat cast)
  have qpos: "(0::rat) < of_int q" using a(2) by simp
  \<comment> \<open>x is above 2^(e-1)\<close>
  have lower: "pow2 (?e - 1) \<le> x"
  proof -
    have "pow2 (?e - 1) * of_int q \<le> pow2 (?e - 1) * pow2 (bitlen q)"
      using Q2 pow2_pos [of "?e - 1"] by (simp add: mult_le_cancel_left_pos)
    also have "\<dots> = pow2 (bitlen p - 1)" using pow2_add [of "?e - 1" "bitlen q"] by simp
    also have "\<dots> \<le> of_int p" by (rule P1)
    finally show ?thesis using qpos a(3) by (simp add: pos_le_divide_eq)
  qed
  have upper: "x < pow2 (?e + 1)"
  proof -
    have "of_int p < pow2 (bitlen p)" by (rule P2)
    also have "\<dots> = pow2 (?e + 1) * pow2 (bitlen q - 1)"
      using pow2_add [of "?e + 1" "bitlen q - 1"] by simp
    also have "\<dots> \<le> pow2 (?e + 1) * of_int q"
      using Q1 pow2_pos [of "?e + 1"] by (simp add: mult_le_cancel_left_pos)
    finally show ?thesis using qpos a(3) by (simp add: pos_divide_less_eq)
  qed
  show "pow2 (exponent2 x) \<le> x"
    using lower pq by (simp add: exponent2_def)
  show "x < pow2 (exponent2 x + 1)"
    using upper pq by (auto simp: exponent2_def not_le)
qed

lemma exponent2_mono:
  assumes "0 < x" "x \<le> y"
  shows "exponent2 x \<le> exponent2 y"
proof (rule ccontr)
  assume "\<not> exponent2 x \<le> exponent2 y"
  then have "exponent2 y + 1 \<le> exponent2 x" by simp
  from pow2_mono [OF this] exponent2_bounds(1) [OF assms(1)] have "pow2 (exponent2 y + 1) \<le> x" by simp
  moreover from assms have "0 < y" by simp
  from exponent2_bounds(2) [OF this] have "y < pow2 (exponent2 y + 1)" .
  ultimately show False using assms(2) by simp
qed

lemma round_half_even_nonneg: "0 \<le> x \<Longrightarrow> 0 \<le> round_half_even x"
  using round_half_even_mono [of 0 x] round_half_even_of_int [of 0] by simp

lemma round_double_nonneg:
  assumes "0 \<le> x"
  shows "0 \<le> round_double x"
proof (cases "x = 0")
  case True
  then show ?thesis by (simp add: round_double_def)
next
  case False
  let ?q = "pow2 (max (exponent2 \<bar>x\<bar>) (- 1022) - 52)"
  from assms pow2_pos [of "max (exponent2 \<bar>x\<bar>) (- 1022) - 52"] have "0 \<le> x / ?q" by simp
  from round_half_even_nonneg [OF this] have "(0::rat) \<le> of_int (round_half_even (x / ?q))" by simp
  with pow2_pos [of "max (exponent2 \<bar>x\<bar>) (- 1022) - 52"] False show ?thesis
    by (simp add: round_double_def)
qed

text \<open>Rounding within one binade stays within its ends.\<close>

lemma round_double_binade:
  assumes x: "0 < x" and e: "e = max (exponent2 x) (- 1022)"
  shows "round_double x \<le> pow2 (e + 1)" and "exponent2 x = e \<Longrightarrow> pow2 e \<le> round_double x"
proof -
  let ?q = "pow2 (e - 52)"
  have q: "0 < ?q" by (rule pow2_pos)
  from x e have rd: "round_double x = of_int (round_half_even (x / ?q)) * ?q"
    by (simp add: round_double_def)
  have "53 + (e - 52) = e + 1" by simp
  with pow2_add [of 53 "e - 52"] have "pow2 (e + 1) = pow2 53 * ?q" by simp
  then have s53: "pow2 (e + 1) = 2 ^ 53 * ?q" by (simp add: pow2_nat)
  have "52 + (e - 52) = e" by simp
  with pow2_add [of 52 "e - 52"] have "pow2 e = pow2 52 * ?q" by simp
  then have s52: "pow2 e = 2 ^ 52 * ?q" by (simp add: pow2_nat)
  from e have "exponent2 x + 1 \<le> e + 1" by simp
  from pow2_mono [OF this] exponent2_bounds(2) [OF x] have "x \<le> pow2 (e + 1)" by simp
  with q s53 have "x / ?q \<le> of_int (2 ^ 53)" by (simp add: pos_divide_le_eq)
  from round_half_even_mono [OF this] have "round_half_even (x / ?q) \<le> 2 ^ 53"
    by (simp only: round_half_even_of_int)
  then have "(of_int (round_half_even (x / ?q)) :: rat) \<le> of_int (2 ^ 53)"
    by (simp only: of_int_le_iff)
  with q show "round_double x \<le> pow2 (e + 1)"
    unfolding rd s53 by (simp add: mult_le_cancel_right)
  assume "exponent2 x = e"
  with exponent2_bounds(1) [OF x] have "pow2 e \<le> x" by simp
  with q s52 have "of_int (2 ^ 52) \<le> x / ?q" by (simp add: pos_le_divide_eq)
  from round_half_even_mono [OF this] have "2 ^ 52 \<le> round_half_even (x / ?q)"
    by (simp only: round_half_even_of_int)
  then have "(of_int (2 ^ 52) :: rat) \<le> of_int (round_half_even (x / ?q))"
    by (simp only: of_int_le_iff)
  with q show "pow2 e \<le> round_double x"
    unfolding rd s52 by (simp add: mult_le_cancel_right)
qed

lemma round_double_mono_pos:
  assumes x: "0 < x" and xy: "x \<le> y"
  shows "round_double x \<le> round_double y"
proof -
  from x xy have y: "0 < y" by simp
  let ?ex = "max (exponent2 x) (- 1022)" and ?ey = "max (exponent2 y) (- 1022)"
  from exponent2_mono [OF x xy] have le: "?ex \<le> ?ey" by simp
  show ?thesis
  proof (cases "?ex = ?ey")
    case True
    let ?q = "pow2 (?ex - 52)"
    have q: "0 < ?q" by (rule pow2_pos)
    from xy q have "x / ?q \<le> y / ?q" by (simp add: divide_right_mono)
    from round_half_even_mono [OF this]
    have "(of_int (round_half_even (x / ?q)) :: rat) \<le> of_int (round_half_even (y / ?q))"
      by (simp only: of_int_le_iff)
    with q have "of_int (round_half_even (x / ?q)) * ?q \<le> of_int (round_half_even (y / ?q)) * ?q"
      by (simp add: mult_le_cancel_right)
    with x y True show ?thesis by (simp add: round_double_def)
  next
    case False
    with le have lt: "?ex + 1 \<le> ?ey" by simp
    then have ey: "exponent2 y = ?ey" by simp
    from round_double_binade(1) [OF x refl] have "round_double x \<le> pow2 (?ex + 1)" .
    also from pow2_mono [OF lt] have "\<dots> \<le> pow2 ?ey" .
    also from round_double_binade(2) [OF y refl ey] have "\<dots> \<le> round_double y" .
    finally show ?thesis .
  qed
qed

lemma round_double_mono:
  assumes "0 \<le> x" and "x \<le> y"
  shows "round_double x \<le> round_double y"
proof (cases "x = 0")
  case True
  with assms round_double_nonneg [of y] show ?thesis by (simp add: round_double_def)
next
  case False
  with assms round_double_mono_pos [of x y] show ?thesis by simp
qed

lemma round_double_1: "round_double 1 = 1"
  by code_simp

lemma round_double_100: "round_double 100 = 100"
  by code_simp

lemma max_double_ge_100: "100 \<le> max_double"
  by code_simp

text \<open>The largest double, written out.\<close>

lemma max_double_numeral [code]:
  "max_double = 179769313486231570814527423731704356798070567525844996598917476803157260780028538760589558632766878171540458953514382464234321326889464182768467546703537516986049910576551282076245490090389328944075868508455133942304583236903222948165808559332123348274797826204144723168738177180919299881250404026184124858368"
  by (simp add: max_double_def)

subsection \<open>What each operation does to the world\<close>

lemma attempt_eq:
  "attempt c b w =
     (b \<and> \<not> faults w (clock w),
      w\<lparr>clock := Suc (clock w), log := log w @ [Sys c (b \<and> \<not> faults w (clock w))]\<rparr>)"
  by (simp add: attempt_def Let_def)

lemma random_bytes_eq:
  "random_bytes n w =
     (map (\<lambda>i. word_of_nat (rng w (drawn w + i) mod 256)) [0..<n], w\<lparr>drawn := drawn w + n\<rparr>)"
proof (induction n arbitrary: w)
  case 0
  show ?case by simp
next
  case (Suc n)
  have "map (\<lambda>i. word_of_nat (rng w (drawn w + i) mod 256) :: byte) [0..<Suc n] =
        word_of_nat (rng w (drawn w) mod 256) # map (\<lambda>i. word_of_nat (rng w (Suc (drawn w) + i) mod 256)) [0..<n]"
    by (simp add: upt_conv_Cons map_Suc_upt [symmetric] del: upt_Suc)
  then show ?case
    by (simp add: Suc randint_def del: upt_Suc)
qed

lemma generate_pattern_frame:
  "generate_pattern n pn w = (d, w1) \<Longrightarrow>
     log w1 = log w \<and> fs w1 = fs w \<and> faults w1 = faults w \<and> clock w1 = clock w \<and>
     calls w1 = calls w \<and> rng w1 = rng w"
  by (auto simp: generate_pattern_def random_bytes_eq split: if_splits)

lemma isfile_cases: "os_path_isfile w p \<longleftrightarrow> (\<exists>c. fs w p = Some (File c))"
  by (auto simp: os_path_isfile_def split: option.splits node.splits)

lemma f_write_Inr:
  "f_write h data w = (Inr h', w') \<Longrightarrow>
     h' = h\<lparr>pos := pos h + length data\<rparr> \<and>
     log w' = log w @ [Sys (Write (hpath h) (pos h) data) True] \<and>
     (\<exists>c. fs w (hpath h) = Some (File c) \<and>
           fs w' = (fs w)(hpath h \<mapsto> File (write_at c (pos h) data))) \<and>
     faults w' = faults w \<and> clock w' = Suc (clock w) \<and> calls w' = calls w \<and>
     rng w' = rng w \<and> drawn w' = drawn w"
  by (auto simp: f_write_def attempt_eq split: if_splits option.splits node.splits)

lemma f_write_Inl:
  "f_write h data w = (Inl e, w') \<Longrightarrow>
     e = OSError \<and>
     log w' = log w @ [Sys (Write (hpath h) (pos h) data) False] \<and> fs w' = fs w \<and>
     faults w' = faults w \<and> clock w' = Suc (clock w) \<and> calls w' = calls w \<and>
     rng w' = rng w \<and> drawn w' = drawn w"
  by (auto simp: f_write_def attempt_eq isfile_cases split: if_splits option.splits node.splits)

lemma f_flush_Inr:
  "f_flush h w = (Inr u, w') \<Longrightarrow>
     log w' = log w @ [Sys (Flush (hpath h)) True] \<and> fs w' = fs w \<and>
     faults w' = faults w \<and> clock w' = Suc (clock w) \<and> calls w' = calls w \<and>
     rng w' = rng w \<and> drawn w' = drawn w"
  by (auto simp: f_flush_def attempt_eq split: if_splits)

lemma f_flush_Inl:
  "f_flush h w = (Inl e, w') \<Longrightarrow>
     e = OSError \<and>
     log w' = log w @ [Sys (Flush (hpath h)) False] \<and> fs w' = fs w \<and>
     faults w' = faults w \<and> clock w' = Suc (clock w) \<and> calls w' = calls w \<and>
     rng w' = rng w \<and> drawn w' = drawn w"
  by (auto simp: f_flush_def attempt_eq split: if_splits)

lemma os_fsync_Inr:
  "os_fsync h w = (Inr u, w') \<Longrightarrow>
     log w' = log w @ [Sys (Fsync (hpath h)) True] \<and> fs w' = fs w \<and>
     faults w' = faults w \<and> clock w' = Suc (clock w) \<and> calls w' = calls w \<and>
     rng w' = rng w \<and> drawn w' = drawn w"
  by (auto simp: os_fsync_def attempt_eq split: if_splits)

lemma os_fsync_Inl:
  "os_fsync h w = (Inl e, w') \<Longrightarrow>
     e = OSError \<and>
     log w' = log w @ [Sys (Fsync (hpath h)) False] \<and> fs w' = fs w \<and>
     faults w' = faults w \<and> clock w' = Suc (clock w) \<and> calls w' = calls w \<and>
     rng w' = rng w \<and> drawn w' = drawn w"
  by (auto simp: os_fsync_def attempt_eq split: if_splits)

lemma f_close_log:
  "f_close h w = (r, w') \<Longrightarrow>
     log w' = log w @ [Sys (Close (hpath h)) (r = Inr ())] \<and> (r = Inr () \<or> r = Inl OSError) \<and>
     fs w' = fs w \<and> faults w' = faults w \<and> clock w' = Suc (clock w) \<and> calls w' = calls w \<and>
     rng w' = rng w \<and> drawn w' = drawn w"
  by (auto simp: f_close_def attempt_eq split: if_splits)

lemma percent_Inl:
  "percent pn S bw ps = Inl e \<Longrightarrow> e = ZeroDivisionError \<or> e = OverflowError"
  by (auto simp: percent_def true_divide_def split: if_splits sum.splits)

text \<open>The percentage for a numerator between 0 and the denominator.\<close>

lemma percent_value:
  assumes a: "0 \<le> pn * S + bw" and b: "pn * S + bw \<le> ps * S" and pos: "0 < ps * S"
  shows "percent pn S bw ps =
           Inr (Finite (round_double (round_double (of_int (pn * S + bw) / of_int (ps * S)) * 100)))"
    and "0 \<le> round_double (round_double (of_int (pn * S + bw) / of_int (ps * S)) * 100)"
    and "round_double (round_double (of_int (pn * S + bw) / of_int (ps * S)) * 100) \<le> 100"
proof -
  let ?x = "of_int (pn * S + bw) / of_int (ps * S) :: rat"
  from a have n0: "(0::rat) \<le> of_int (pn * S + bw)" by (rule iffD2 [OF of_int_0_le_iff])
  from pos have p0: "(0::rat) < of_int (ps * S)" by (rule iffD2 [OF of_int_0_less_iff])
  from b have le: "(of_int (pn * S + bw) :: rat) \<le> of_int (ps * S)"
    by (rule iffD2 [OF of_int_le_iff])
  from n0 p0 have x0: "0 \<le> ?x" by (rule divide_nonneg_pos)
  from le have x1: "?x \<le> 1" unfolding divide_le_eq_1_pos [OF p0] .
  from round_double_nonneg [OF x0] have d0: "0 \<le> round_double ?x" .
  from round_double_mono [OF x0 x1] have d1: "round_double ?x \<le> 1" by (simp add: round_double_1)
  from d0 have y0: "0 \<le> round_double ?x * 100" by simp
  from d1 have y1: "round_double ?x * 100 \<le> 100" by simp
  from round_double_nonneg [OF y0] show v0: "0 \<le> round_double (round_double ?x * 100)" .
  from round_double_mono [OF y0 y1] show v1: "round_double (round_double ?x * 100) \<le> 100"
    by (simp add: round_double_100)
  from d0 d1 max_double_ge_100 have "\<not> max_double < \<bar>round_double ?x\<bar>" by simp
  moreover from v0 v1 max_double_ge_100
  have "\<not> max_double < round_double (round_double ?x * 100)"
    and "\<not> round_double (round_double ?x * 100) < - max_double" by simp_all
  moreover from pos have "ps \<noteq> 0" "S \<noteq> 0" by auto
  ultimately show "percent pn S bw ps = Inr (Finite (round_double (round_double ?x * 100)))"
    by (simp add: percent_def true_divide_def float_times_def)
qed

lemma pass_arith:
  assumes "0 < (S::int)" and "0 \<le> pn" and "pn < ps" and "0 \<le> bw" and "bw \<le> S"
  shows "0 \<le> pn * S + bw" and "pn * S + bw \<le> ps * S" and "0 < ps * S"
proof -
  have "0 \<le> pn * S" by (rule mult_nonneg_nonneg) (use assms in simp_all)
  with assms show "0 \<le> pn * S + bw" by simp
  have "(pn + 1) * S \<le> ps * S" by (rule mult_right_mono) (use assms in simp_all)
  with assms show "pn * S + bw \<le> ps * S" by (simp add: distrib_right)
  show "0 < ps * S" by (rule mult_pos_pos) (use assms in simp_all)
qed

lemma percent_numerator_mono:
  assumes "0 \<le> a" and "a \<le> a'" and "0 < b"
  shows "round_double (round_double (of_int a / of_int b) * 100)
           \<le> round_double (round_double (of_int a' / of_int b) * 100)"
proof -
  from assms have x0: "(0::rat) \<le> of_int a / of_int b" by simp
  from assms have "(of_int a / of_int b :: rat) \<le> of_int a' / of_int b"
    by (simp add: divide_right_mono)
  from round_double_mono [OF x0 this] round_double_nonneg [OF x0]
  have "0 \<le> round_double (of_int a / of_int b) * 100"
    and "round_double (of_int a / of_int b) * 100 \<le> round_double (of_int a' / of_int b) * 100"
    by simp_all
  then show ?thesis by (rule round_double_mono)
qed

lemma percent_full:
  assumes "0 < b"
  shows "round_double (round_double (of_int b / of_int b) * 100) = 100"
  using assms by (simp add: round_double_1 round_double_100)

lemma update_progress_Inr:
  "update_progress cb pn S bw ps w = (Inr u, w') \<Longrightarrow>
     log w' = log w @ (case cb of None \<Rightarrow> []
                       | Some s \<Rightarrow> [Progress (projr (percent pn S bw ps)) (status_label pn ps)]) \<and>
     fs w' = fs w \<and> faults w' = faults w \<and> clock w' = clock w \<and>
     rng w' = rng w \<and> drawn w' = drawn w \<and> (cb \<noteq> None \<longrightarrow> (\<exists>v. percent pn S bw ps = Inr v))"
  by (auto simp: update_progress_def invoke_def Let_def split: if_splits option.splits sum.splits)

lemma update_progress_Inl:
  "update_progress cb pn S bw ps w = (Inl e, w') \<Longrightarrow>
     (\<exists>s. cb = Some s \<and>
        ((percent pn S bw ps = Inl e \<and> w' = w) \<or>
         (\<exists>v. percent pn S bw ps = Inr v \<and> s (calls w) v (status_label pn ps) = Some e \<and>
          log w' = log w @ [Progress v (status_label pn ps)]))) \<and>
     fs w' = fs w \<and> faults w' = faults w \<and> clock w' = clock w \<and>
     rng w' = rng w \<and> drawn w' = drawn w"
  by (auto simp: update_progress_def invoke_def Let_def split: if_splits option.splits sum.splits)

subsection \<open>One chunk\<close>

lemma chunk_step_Inr:
  assumes "chunk_step cb cs S pn ps h bw w = (Inr (h', bw'), w')"
  shows "bw' = bw + min cs (S - bw)"
    and "hpath h' = hpath h"
    and "pos h' = pos h + length (fst (generate_pattern (min cs (S - bw)) pn w))"
    and "log w' = log w @
           [Sys (Write (hpath h) (pos h) (fst (generate_pattern (min cs (S - bw)) pn w))) True,
            Sys (Flush (hpath h)) True, Sys (Fsync (hpath h)) True] @
           (case cb of None \<Rightarrow> []
            | Some s \<Rightarrow> [Progress (projr (percent pn S bw' ps)) (status_label pn ps)])"
    and "os_path_isfile w (hpath h)" and "os_path_isfile w' (hpath h)"
    and "\<And>q. q \<noteq> hpath h \<Longrightarrow> fs w' q = fs w q"
    and "faults w' = faults w" and "rng w' = rng w"
    and "cb \<noteq> None \<Longrightarrow> \<exists>v. percent pn S bw' ps = Inr v"
  using assms
  by (auto simp: chunk_step_def and_then_def Let_def isfile_cases
      split: prod.splits sum.splits
      dest!: generate_pattern_frame f_write_Inr f_flush_Inr os_fsync_Inr update_progress_Inr)

lemma chunk_step_Inl:
  assumes "chunk_step cb cs S pn ps h bw w = (Inl e, w')"
  shows "\<exists>evs. log w' = log w @ evs \<and>
     (let p = hpath h; d = fst (generate_pattern (min cs (S - bw)) pn w)
      in (e = OSError \<and> evs = [Sys (Write p (pos h) d) False]) \<or>
         (e = OSError \<and> evs = [Sys (Write p (pos h) d) True, Sys (Flush p) False]) \<or>
         (e = OSError \<and> evs = [Sys (Write p (pos h) d) True, Sys (Flush p) True, Sys (Fsync p) False]) \<or>
         (cb \<noteq> None \<and> percent pn S (bw + min cs (S - bw)) ps = Inl e \<and>
            evs = [Sys (Write p (pos h) d) True, Sys (Flush p) True, Sys (Fsync p) True]) \<or>
         (\<exists>s v. cb = Some s \<and> percent pn S (bw + min cs (S - bw)) ps = Inr v \<and>
            s (calls w) v (status_label pn ps) = Some e \<and>
            evs = [Sys (Write p (pos h) d) True, Sys (Flush p) True, Sys (Fsync p) True,
                   Progress v (status_label pn ps)]))"
    and "os_path_isfile w' (hpath h) \<longleftrightarrow> os_path_isfile w (hpath h)"
    and "\<And>q. q \<noteq> hpath h \<Longrightarrow> fs w' q = fs w q"
    and "faults w' = faults w" and "rng w' = rng w"
  using assms
  by (auto simp: chunk_step_def and_then_def Let_def isfile_cases
      split: prod.splits sum.splits
      dest!: generate_pattern_frame f_write_Inr f_flush_Inr os_fsync_Inr
         f_write_Inl f_flush_Inl os_fsync_Inl update_progress_Inl)

subsection \<open>The loop over the chunks\<close>

text \<open>An invariant rule for the loop, and its termination for a positive chunk size.\<close>

lemma chunk_loop_rule:
  assumes run: "chunk_loop cb cs S pn ps h bw w = Some (r, w')"
    and init: "I h bw w"
    and step: "\<And>h bw w h' bw' w'. \<lbrakk>I h bw w; bw < S;
                 chunk_step cb cs S pn ps h bw w = (Inr (h', bw'), w')\<rbrakk> \<Longrightarrow> I h' bw' w'"
    and fail: "\<And>h bw w e w'. \<lbrakk>I h bw w; bw < S;
                 chunk_step cb cs S pn ps h bw w = (Inl e, w')\<rbrakk> \<Longrightarrow> Q (Inl e) w'"
    and fin: "\<And>h bw w. \<lbrakk>I h bw w; \<not> bw < S\<rbrakk> \<Longrightarrow> Q (Inr bw) w"
  shows "Q r w'"
proof -
  let ?P = "\<lambda>cb' cs' S' pn' ps' h bw w y.
      cb' = cb \<and> cs' = cs \<and> S' = S \<and> pn' = pn \<and> ps' = ps \<longrightarrow> I h bw w \<longrightarrow> Q (fst y) (snd y)"
  have "?P cb cs S pn ps h bw w (r, w')"
  proof (rule chunk_loop.raw_induct [where P = ?P, OF _ run], intro impI)
    fix loop cb' cs' S' pn' ps' h bw w y
    assume IH: "\<And>cb' cs' S' pn' ps' h bw w y. loop cb' cs' S' pn' ps' h bw w = Some y
                  \<Longrightarrow> ?P cb' cs' S' pn' ps' h bw w y"
      and body: "(if bw < S' then
                    case chunk_step cb' cs' S' pn' ps' h bw w of
                      (Inl e, w') \<Rightarrow> Some (Inl e, w')
                    | (Inr (f', bytes_written'), w') \<Rightarrow> loop cb' cs' S' pn' ps' f' bytes_written' w'
                  else Some (Inr bw, w)) = Some y"
      and eqs: "cb' = cb \<and> cs' = cs \<and> S' = S \<and> pn' = pn \<and> ps' = ps" and inv: "I h bw w"
    show "Q (fst y) (snd y)"
    proof (cases "bw < S")
      case False
      with body eqs have "y = (Inr bw, w)" by simp
      with fin [OF inv False] show ?thesis by simp
    next
      case True
      obtain r1 w1 where st: "chunk_step cb cs S pn ps h bw w = (r1, w1)"
        by (cases "chunk_step cb cs S pn ps h bw w") auto
      show ?thesis
      proof (cases r1)
        case (Inl e)
        with body eqs True st have "y = (Inl e, w1)" by simp
        with fail [OF inv True st [unfolded Inl]] show ?thesis by simp
      next
        case (Inr hb)
        obtain h1 bw1 where hb: "hb = (h1, bw1)" by (cases hb) auto
        from body eqs True st Inr hb have "loop cb cs S pn ps h1 bw1 w1 = Some y" by simp
        from IH [OF this] step [OF inv True st [unfolded Inr hb]]
        show ?thesis by simp
      qed
    qed
  qed
  with init show ?thesis by simp
qed

lemma chunk_loop_terminates:
  assumes "0 < cs"
  shows "\<exists>y. chunk_loop cb cs S pn ps h bw w = Some y"
proof (induction "nat (S - bw)" arbitrary: h bw w rule: less_induct)
  case less
  show ?case
  proof (cases "bw < S")
    case False
    then show ?thesis by (subst chunk_loop.simps) simp
  next
    case True
    obtain r1 w1 where st: "chunk_step cb cs S pn ps h bw w = (r1, w1)"
      by (cases "chunk_step cb cs S pn ps h bw w") auto
    show ?thesis
    proof (cases r1)
      case (Inl e)
      with True st show ?thesis by (subst chunk_loop.simps) simp
    next
      case (Inr hb)
      obtain h1 bw1 where hb: "hb = (h1, bw1)" by (cases hb) auto
      from chunk_step_Inr(1) [OF st [unfolded Inr hb]] assms True
      have "nat (S - bw1) < nat (S - bw)" by auto
      from less [OF this] obtain y where "chunk_loop cb cs S pn ps h1 bw1 w1 = Some y" by blast
      with True st Inr hb show ?thesis by (subst chunk_loop.simps) simp
    qed
  qed
qed

lemma events_since_append: "log w' = log w @ evs \<Longrightarrow> events_since w w' = evs"
  by (simp add: events_since_def)

lemma events_since_self: "events_since w w = []"
  by (simp add: events_since_def)



lemma random_bytes_length: "length (fst (random_bytes n w)) = n"
  by (simp add: random_bytes_eq)



section \<open>The claims\<close>

subsection \<open>The loop when nothing fails\<close>

lemma isfile_fs_cong: "fs w' = fs w \<Longrightarrow> os_path_isfile w' p = os_path_isfile w p"
  by (simp add: os_path_isfile_def)

lemma f_write_ok:
  "os_path_isfile w (hpath h) \<Longrightarrow> \<not> faults w (clock w) \<Longrightarrow>
     \<exists>w'. f_write h data w = (Inr (h\<lparr>pos := pos h + length data\<rparr>), w')"
  by (auto simp: f_write_def attempt_eq isfile_cases)

lemma f_flush_ok: "\<not> faults w (clock w) \<Longrightarrow> \<exists>w'. f_flush h w = (Inr (), w')"
  by (simp add: f_flush_def attempt_eq)

lemma os_fsync_ok: "\<not> faults w (clock w) \<Longrightarrow> \<exists>w'. os_fsync h w = (Inr (), w')"
  by (simp add: os_fsync_def attempt_eq)

lemma f_close_ok: "\<not> faults w (clock w) \<Longrightarrow> \<exists>w'. f_close h w = (Inr (), w')"
  by (simp add: f_close_def attempt_eq)

lemma os_open_ok:
  "os_path_isfile w p \<Longrightarrow> \<not> faults w (clock w) \<Longrightarrow>
     \<exists>w'. os_open p w = (Inr \<lparr>hpath = p, pos = 0\<rparr>, w')"
  by (simp add: os_open_def attempt_eq)

lemma update_progress_ok:
  "\<forall>s i v l. cb = Some s \<longrightarrow> s i v l = None \<Longrightarrow>
   cb \<noteq> None \<longrightarrow> (\<exists>v. percent pn S bw ps = Inr v) \<Longrightarrow>
     \<exists>w'. update_progress cb pn S bw ps w = (Inr (), w')"
  by (cases cb) (auto simp: update_progress_def invoke_def Let_def)

lemma chunk_step_ok:
  assumes q: "\<forall>n. \<not> faults w n" and f: "os_path_isfile w (hpath h)"
    and s: "\<forall>s i v l. cb = Some s \<longrightarrow> s i v l = None"
    and z: "cb \<noteq> None \<longrightarrow> (\<exists>v. percent pn S (bw + min cs (S - bw)) ps = Inr v)"
  shows "\<exists>h' w'. chunk_step cb cs S pn ps h bw w = (Inr (h', bw + min cs (S - bw)), w')"
proof -
  obtain d w1 where g: "generate_pattern (min cs (S - bw)) pn w = (d, w1)"
    by (cases "generate_pattern (min cs (S - bw)) pn w") auto
  note fr = generate_pattern_frame [OF g]
  from fr f have f1: "os_path_isfile w1 (hpath h)" using isfile_fs_cong [of w1 w] by simp
  from fr q have q1: "\<forall>n. \<not> faults w1 n" by simp
  from f_write_ok [OF f1, of d] q1 obtain w2
    where wr: "f_write h d w1 = (Inr (h\<lparr>pos := pos h + length d\<rparr>), w2)" by blast
  from f_write_Inr [OF wr] q1 have q2: "\<forall>n. \<not> faults w2 n" by simp
  from f_flush_ok [of w2 "h\<lparr>pos := pos h + length d\<rparr>"] q2 obtain w3
    where fl: "f_flush (h\<lparr>pos := pos h + length d\<rparr>) w2 = (Inr (), w3)" by blast
  from f_flush_Inr [OF fl] q2 have q3: "\<forall>n. \<not> faults w3 n" by simp
  from os_fsync_ok [of w3 "h\<lparr>pos := pos h + length d\<rparr>"] q3 obtain w4
    where fy: "os_fsync (h\<lparr>pos := pos h + length d\<rparr>) w3 = (Inr (), w4)" by blast
  from update_progress_ok [OF s z, of w4] obtain w5
    where up: "update_progress cb pn S (bw + min cs (S - bw)) ps w4 = (Inr (), w5)" by blast
  from g wr fl fy up
  have "chunk_step cb cs S pn ps h bw w = (Inr (h\<lparr>pos := pos h + length d\<rparr>, bw + min cs (S - bw)), w5)"
    by (simp add: chunk_step_def and_then_def Let_def)
  then show ?thesis by blast
qed

lemma chunk_loop_ok:
  assumes cs: "0 < cs" and pn: "0 \<le> pn" "pn < ps" and bw: "0 \<le> bw"
    and q: "\<forall>n. \<not> faults w n" and f: "os_path_isfile w (hpath h)"
    and s: "\<forall>s i v l. cb = Some s \<longrightarrow> s i v l = None"
  shows "\<exists>b w'. chunk_loop cb cs S pn ps h bw w = Some (Inr b, w')"
proof -
  from chunk_loop_terminates [OF cs] obtain r w'
    where run: "chunk_loop cb cs S pn ps h bw w = Some (r, w')" by (metis surj_pair)
  let ?I = "\<lambda>(h1::handle) (bw1::int) (w1::world).
      0 \<le> bw1 \<and> hpath h1 = hpath h \<and> (\<forall>n. \<not> faults w1 n) \<and> os_path_isfile w1 (hpath h)"
  let ?Q = "\<lambda>(r::exn + int) (w'::world). \<exists>b. r = Inr b"
  have "?Q r w'"
  proof (rule chunk_loop_rule [where I = ?I and Q = ?Q, OF run])
    show "?I h bw w" using bw q f by simp
  next
    fix h1 bw1 w1 h2 bw2 w2
    assume inv: "?I h1 bw1 w1" and lt: "bw1 < S"
      and st: "chunk_step cb cs S pn ps h1 bw1 w1 = (Inr (h2, bw2), w2)"
    from chunk_step_Inr(1,2,6,8) [OF st] inv lt cs show "?I h2 bw2 w2" by simp
  next
    fix h1 bw1 w1 e w2
    assume inv: "?I h1 bw1 w1" and lt: "bw1 < S"
      and st: "chunk_step cb cs S pn ps h1 bw1 w1 = (Inl e, w2)"
    from inv lt cs have "0 < S" "0 \<le> bw1 + min cs (S - bw1)" "bw1 + min cs (S - bw1) \<le> S"
      by simp_all
    from percent_value(1) [OF pass_arith [OF this(1) pn this(2,3)]]
    have "cb \<noteq> None \<longrightarrow> (\<exists>v. percent pn S (bw1 + min cs (S - bw1)) ps = Inr v)" by blast
    with chunk_step_ok [of w1 h1 cb pn S bw1 cs ps] inv s st show "?Q (Inl e) w2" by auto
  next
    fix h1 bw1 w1
    show "?Q (Inr bw1) w1" by simp
  qed
  with run show ?thesis by blast
qed

subsection \<open>C1: one pass writes the file size, whatever the chunk size\<close>



subsection \<open>C2: the pattern of a pass\<close>

text \<open>
  Claim C2. For every \<open>size \<ge> 0\<close> and pass index \<open>p \<ge> 0\<close>, \<open>generate_pattern\<close> returns
  exactly \<open>size\<close> bytes: all \<open>0x00\<close> when \<open>p mod 3 = 0\<close>, all \<open>0xFF\<close> when
  \<open>p mod 3 = 1\<close>, and the next \<open>size\<close> draws of \<open>randint(0, 255)\<close> from the
  pseudo-random generator when \<open>p mod 3 = 2\<close>; size 0 gives the empty buffer. The
  function has no way to fail.
\<close>

theorem generate_pattern_spec:
  "0 \<le> sz \<Longrightarrow> 0 \<le> p \<Longrightarrow>
     int (length (fst (generate_pattern sz p w))) = sz \<and>
     (p mod 3 = 0 \<longrightarrow> generate_pattern sz p w = (replicate (nat sz) 0x00, w)) \<and>
     (p mod 3 = 1 \<longrightarrow> generate_pattern sz p w = (replicate (nat sz) 0xFF, w)) \<and>
     (p mod 3 = 2 \<longrightarrow> generate_pattern sz p w =
        (map (\<lambda>i. word_of_nat (rng w (drawn w + i) mod 256)) [0..<nat sz],
         w\<lparr>drawn := drawn w + nat sz\<rparr>)) \<and>
     (sz = 0 \<longrightarrow> fst (generate_pattern sz p w) = [])"
  by (simp add: generate_pattern_def random_bytes_eq)

theorem generate_pattern_spec_witness:
  "(0::int) \<le> 4 \<and> (0::int) \<le> 5 \<and> (5::int) mod 3 = 2 \<and>
   fst (generate_pattern 4 5 example_world) = [3, 10, 17, 24] \<and>
   drawn (snd (generate_pattern 4 5 example_world)) = 4 \<and>
   generate_pattern 4 3 example_world = ([0, 0, 0, 0], example_world) \<and>
   generate_pattern 4 7 example_world = ([255, 255, 255, 255], example_world) \<and>
   fst (generate_pattern 0 5 example_world) = []"
proof -
  have h: "(0::int) \<le> 4" "(0::int) \<le> 5" "(0::int) \<le> 3" "(0::int) \<le> 7" "(0::int) \<le> 0"
    by simp_all
  have v: "fst (generate_pattern 4 5 example_world) = [3, 10, 17, 24]"
    by code_simp
  have r: "replicate (nat 4) (x::byte) = [x, x, x, x]" for x
    by (simp add: numeral_eq_Suc)
  have d: "drawn example_world = 0"
    by (simp add: example_world_def)
  from generate_pattern_spec [OF h(1) h(2), of example_world]
    generate_pattern_spec [OF h(1) h(3), of example_world]
    generate_pattern_spec [OF h(1) h(4), of example_world]
    generate_pattern_spec [OF h(5) h(2), of example_world] v r d
  show ?thesis by simp
qed

subsection \<open>C9: a path that is not a regular file\<close>

text \<open>
  Claim C9. When the path does not denote an existing regular file, \<open>shred_file\<close>
  returns \<open>False\<close> and leaves the world as it was: nothing is attempted on the file
  system, nothing is logged and the progress sink is not invoked.
\<close>

theorem shred_file_not_regular:
  "\<not> os_path_isfile w filepath \<Longrightarrow>
     shred_file w filepath method progress_callback chunk_size = Some (Returned False, w)"
  by (simp add: shred_file_def shred_body_def)

theorem shred_file_not_regular_witness:
  "\<not> os_path_isfile example_world ''/d/missing'' \<and>
   shred_file example_world ''/d/missing'' ''dod'' (Some quiet_sink) 1048576 = Some (Returned False, example_world) \<and>
   \<not> os_path_isfile example_world ''/d'' \<and>
   shred_file example_world ''/d'' ''dod'' (Some quiet_sink) 1048576 = Some (Returned False, example_world) \<and>
   \<not> os_path_isfile example_world ''/dev/null'' \<and>
   shred_file example_world ''/dev/null'' ''dod'' (Some quiet_sink) 1048576 = Some (Returned False, example_world)"
proof -
  have a: "\<not> os_path_isfile example_world ''/d/missing''"
    and b: "\<not> os_path_isfile example_world ''/d''"
    and c: "\<not> os_path_isfile example_world ''/dev/null''"
    by (simp_all add: os_path_isfile_def example_world_def)
  from a b c shred_file_not_regular [OF a] shred_file_not_regular [OF b] shred_file_not_regular [OF c]
  show ?thesis by simp
qed

lemma chunk_step_Inr_events:
  assumes "chunk_step cb cs S pn ps h bw w = (Inr (h', bw'), w')"
  shows "\<exists>evs. log w' = log w @ evs \<and> (\<forall>x\<in>set evs. chunk_event x)"
  using chunk_step_Inr(4) [OF assms] by (auto split: option.splits)

lemma chunk_step_Inl_events:
  assumes "chunk_step cb cs S pn ps h bw w = (Inl e, w')"
  shows "\<exists>evs. log w' = log w @ evs \<and>
           (((\<forall>x\<in>set evs. chunk_event x) \<and>
               (is_Exception e \<or> (\<exists>s i v l. cb = Some s \<and> s i v l = Some e))) \<or>
            (e = OSError \<and>
               (\<exists>pre c. evs = pre @ [Sys c False] \<and> is_overwrite c \<and> (\<forall>x\<in>set pre. chunk_event x))))"
proof -
  let ?p = "hpath h" and ?d = "fst (generate_pattern (min cs (S - bw)) pn w)"
  let ?bw = "bw + min cs (S - bw)"
  from chunk_step_Inl(1) [OF assms] obtain evs where l: "log w' = log w @ evs"
    and sh: "(e = OSError \<and> evs = [Sys (Write ?p (pos h) ?d) False]) \<or>
         (e = OSError \<and> evs = [Sys (Write ?p (pos h) ?d) True, Sys (Flush ?p) False]) \<or>
         (e = OSError \<and> evs = [Sys (Write ?p (pos h) ?d) True, Sys (Flush ?p) True, Sys (Fsync ?p) False]) \<or>
         (cb \<noteq> None \<and> percent pn S ?bw ps = Inl e \<and>
            evs = [Sys (Write ?p (pos h) ?d) True, Sys (Flush ?p) True, Sys (Fsync ?p) True]) \<or>
         (\<exists>s v. cb = Some s \<and> percent pn S ?bw ps = Inr v \<and>
            s (calls w) v (status_label pn ps) = Some e \<and>
            evs = [Sys (Write ?p (pos h) ?d) True, Sys (Flush ?p) True, Sys (Fsync ?p) True,
                   Progress v (status_label pn ps)])"
    unfolding Let_def by blast
  from sh consider
      (a) "e = OSError" "evs = [] @ [Sys (Write ?p (pos h) ?d) False]"
    | (b) "e = OSError" "evs = [Sys (Write ?p (pos h) ?d) True] @ [Sys (Flush ?p) False]"
    | (c) "e = OSError" "evs = [Sys (Write ?p (pos h) ?d) True, Sys (Flush ?p) True] @ [Sys (Fsync ?p) False]"
    | (d) "percent pn S ?bw ps = Inl e"
        "evs = [Sys (Write ?p (pos h) ?d) True, Sys (Flush ?p) True, Sys (Fsync ?p) True]"
    | (f) s v where "cb = Some s" "s (calls w) v (status_label pn ps) = Some e"
        "evs = [Sys (Write ?p (pos h) ?d) True, Sys (Flush ?p) True, Sys (Fsync ?p) True,
                Progress v (status_label pn ps)]"
    by fastforce
  then show ?thesis
  proof cases
    case a
    have "is_overwrite (Write ?p (pos h) ?d) \<and> (\<forall>x\<in>set []. chunk_event x)" by simp
    with a l show ?thesis by blast
  next
    case b
    have "is_overwrite (Flush ?p) \<and> (\<forall>x\<in>set [Sys (Write ?p (pos h) ?d) True]. chunk_event x)" by simp
    with b l show ?thesis by blast
  next
    case c
    have "is_overwrite (Fsync ?p) \<and>
          (\<forall>x\<in>set [Sys (Write ?p (pos h) ?d) True, Sys (Flush ?p) True]. chunk_event x)" by simp
    with c l show ?thesis by blast
  next
    case d
    from percent_Inl [OF d(1)] have "is_Exception e" by auto
    moreover from d(2) have "\<forall>x\<in>set evs. chunk_event x" by simp
    ultimately show ?thesis using l by blast
  next
    case f
    from f(1,2) have "\<exists>s i v l. cb = Some s \<and> s i v l = Some e" by blast
    moreover from f(3) have "\<forall>x\<in>set evs. chunk_event x" by simp
    ultimately show ?thesis using l by blast
  qed
qed

text \<open>The shape of what a run of the loop adds to the log, and what it leaves alone.\<close>

lemma chunk_loop_shape:
  assumes run: "chunk_loop cb cs S pn ps h bw w = Some (r, w')"
  shows "(\<exists>evs. log w' = log w @ evs \<and>
           (case r of
              Inr b \<Rightarrow> (\<forall>x\<in>set evs. chunk_event x)
            | Inl e \<Rightarrow>
                ((\<forall>x\<in>set evs. chunk_event x) \<and>
                   (is_Exception e \<or> (\<exists>s i v l. cb = Some s \<and> s i v l = Some e))) \<or>
                (e = OSError \<and>
                   (\<exists>pre c. evs = pre @ [Sys c False] \<and> is_overwrite c \<and>
                      (\<forall>x\<in>set pre. chunk_event x))))) \<and>
         (os_path_isfile w' (hpath h) \<longleftrightarrow> os_path_isfile w (hpath h)) \<and>
         (\<forall>q. q \<noteq> hpath h \<longrightarrow> fs w' q = fs w q) \<and> faults w' = faults w \<and> rng w' = rng w"
proof -
  let ?I = "\<lambda>(h1::handle) (bw1::int) (w1::world).
      hpath h1 = hpath h \<and>
      (\<exists>evs. log w1 = log w @ evs \<and> (\<forall>x\<in>set evs. chunk_event x)) \<and>
      (os_path_isfile w1 (hpath h) \<longleftrightarrow> os_path_isfile w (hpath h)) \<and>
      (\<forall>q. q \<noteq> hpath h \<longrightarrow> fs w1 q = fs w q) \<and> faults w1 = faults w \<and> rng w1 = rng w"
  let ?Q = "\<lambda>(r::exn + int) (w'::world).
         (\<exists>evs. log w' = log w @ evs \<and>
           (case r of
              Inr b \<Rightarrow> (\<forall>x\<in>set evs. chunk_event x)
            | Inl e \<Rightarrow>
                ((\<forall>x\<in>set evs. chunk_event x) \<and>
                   (is_Exception e \<or> (\<exists>s i v l. cb = Some s \<and> s i v l = Some e))) \<or>
                (e = OSError \<and>
                   (\<exists>pre c. evs = pre @ [Sys c False] \<and> is_overwrite c \<and>
                      (\<forall>x\<in>set pre. chunk_event x))))) \<and>
         (os_path_isfile w' (hpath h) \<longleftrightarrow> os_path_isfile w (hpath h)) \<and>
         (\<forall>q. q \<noteq> hpath h \<longrightarrow> fs w' q = fs w q) \<and> faults w' = faults w \<and> rng w' = rng w"
  show ?thesis
  proof (rule chunk_loop_rule [where I = ?I and Q = ?Q, OF run])
    show "?I h bw w" by simp
  next
    fix h1 bw1 w1 h2 bw2 w2
    assume inv: "?I h1 bw1 w1"
      and st: "chunk_step cb cs S pn ps h1 bw1 w1 = (Inr (h2, bw2), w2)"
    from inv obtain evs where evs: "log w1 = log w @ evs" "\<forall>x\<in>set evs. chunk_event x" by blast
    from chunk_step_Inr_events [OF st] obtain evs1
      where evs1: "log w2 = log w1 @ evs1" "\<forall>x\<in>set evs1. chunk_event x" by blast
    from evs evs1 have "log w2 = log w @ (evs @ evs1) \<and> (\<forall>x\<in>set (evs @ evs1). chunk_event x)"
      by auto
    then have "\<exists>evs. log w2 = log w @ evs \<and> (\<forall>x\<in>set evs. chunk_event x)" by blast
    with inv chunk_step_Inr(2,5,6,7,8,9) [OF st]
    show "?I h2 bw2 w2" by simp
  next
    fix h1 bw1 w1 e w2
    assume inv: "?I h1 bw1 w1"
      and st: "chunk_step cb cs S pn ps h1 bw1 w1 = (Inl e, w2)"
    from inv obtain evs where evs: "log w1 = log w @ evs" "\<forall>x\<in>set evs. chunk_event x" by blast
    from chunk_step_Inl_events [OF st] obtain evs1 where evs1: "log w2 = log w1 @ evs1"
      and sh: "((\<forall>x\<in>set evs1. chunk_event x) \<and>
               (is_Exception e \<or> (\<exists>s i v l. cb = Some s \<and> s i v l = Some e))) \<or>
            (e = OSError \<and>
               (\<exists>pre c. evs1 = pre @ [Sys c False] \<and> is_overwrite c \<and> (\<forall>x\<in>set pre. chunk_event x)))"
      by blast
    have l: "log w2 = log w @ (evs @ evs1)" using evs evs1 by simp
    from sh have "((\<forall>x\<in>set (evs @ evs1). chunk_event x) \<and>
               (is_Exception e \<or> (\<exists>s i v l. cb = Some s \<and> s i v l = Some e))) \<or>
            (e = OSError \<and>
               (\<exists>pre c. evs @ evs1 = pre @ [Sys c False] \<and> is_overwrite c \<and> (\<forall>x\<in>set pre. chunk_event x)))"
    proof
      assume "(\<forall>x\<in>set evs1. chunk_event x) \<and>
               (is_Exception e \<or> (\<exists>s i v l. cb = Some s \<and> s i v l = Some e))"
      with evs show ?thesis by auto
    next
      assume "e = OSError \<and>
               (\<exists>pre c. evs1 = pre @ [Sys c False] \<and> is_overwrite c \<and> (\<forall>x\<in>set pre. chunk_event x))"
      then obtain pre c where "e = OSError" "evs1 = pre @ [Sys c False]" "is_overwrite c"
        "\<forall>x\<in>set pre. chunk_event x" by blast
      with evs have "e = OSError \<and> evs @ evs1 = (evs @ pre) @ [Sys c False] \<and> is_overwrite c \<and>
          (\<forall>x\<in>set (evs @ pre). chunk_event x)" by auto
      then show ?thesis by blast
    qed
    with l have "\<exists>evs. log w2 = log w @ evs \<and>
           (((\<forall>x\<in>set evs. chunk_event x) \<and>
                   (is_Exception e \<or> (\<exists>s i v l. cb = Some s \<and> s i v l = Some e))) \<or>
                (e = OSError \<and>
                   (\<exists>pre c. evs = pre @ [Sys c False] \<and> is_overwrite c \<and>
                      (\<forall>x\<in>set pre. chunk_event x))))" by blast
    with inv chunk_step_Inl(2,3,4,5) [OF st]
    show "?Q (Inl e) w2" by simp
  next
    fix h1 bw1 w1
    assume "?I h1 bw1 w1"
    then show "?Q (Inr bw1) w1" by simp
  qed
qed

subsection \<open>One pass and the loop over the passes\<close>

lemma os_open_Inr:
  "os_open p w = (Inr h, w') \<Longrightarrow>
     h = \<lparr>hpath = p, pos = 0\<rparr> \<and> log w' = log w @ [Sys (Open p) True] \<and> fs w' = fs w \<and>
     faults w' = faults w \<and> clock w' = Suc (clock w) \<and> calls w' = calls w \<and>
     rng w' = rng w \<and> drawn w' = drawn w \<and> os_path_isfile w p"
  by (auto simp: os_open_def attempt_eq split: if_splits)

lemma os_open_Inl:
  "os_open p w = (Inl e, w') \<Longrightarrow>
     e = OSError \<and> log w' = log w @ [Sys (Open p) False] \<and> fs w' = fs w \<and>
     faults w' = faults w \<and> clock w' = Suc (clock w) \<and> calls w' = calls w \<and>
     rng w' = rng w \<and> drawn w' = drawn w"
  by (auto simp: os_open_def attempt_eq split: if_splits)

lemma one_pass_shape:
  assumes run: "one_pass p cb cs S ps pn w = Some (r, w')"
  shows "(\<exists>evs. log w' = log w @ evs \<and>
     ((r = Inl OSError \<and> evs = [Sys (Open p) False]) \<or>
      (\<exists>mid b. evs = Sys (Open p) True # mid @ [Sys (Close p) b] \<and>
         (\<forall>x\<in>set mid. chunk_event x) \<and>
         (if b then r = Inr () \<or>
                    (\<exists>e. r = Inl e \<and> (is_Exception e \<or> (\<exists>s i v l. cb = Some s \<and> s i v l = Some e)))
          else r = Inl OSError)) \<or>
      (\<exists>mid c b. evs = Sys (Open p) True # mid @ [Sys c False, Sys (Close p) b] \<and>
         (\<forall>x\<in>set mid. chunk_event x) \<and> is_overwrite c \<and> r = Inl OSError))) \<and>
    (os_path_isfile w' p \<longleftrightarrow> os_path_isfile w p) \<and>
    (\<forall>q. q \<noteq> p \<longrightarrow> fs w' q = fs w q) \<and> faults w' = faults w \<and> rng w' = rng w"
proof -
  obtain r1 w1 where op: "os_open p w = (r1, w1)" by (cases "os_open p w") auto
  show ?thesis
  proof (cases r1)
    case (Inl e)
    from op Inl run have "r = Inl e" "w' = w1" by (simp_all add: one_pass_def)
    with os_open_Inl [OF op [unfolded Inl]]
    have "e = OSError" "log w' = log w @ [Sys (Open p) False]" "fs w' = fs w"
      "faults w' = faults w" "rng w' = rng w" by simp_all
    with \<open>r = Inl e\<close> isfile_fs_cong [OF \<open>fs w' = fs w\<close>, of p] show ?thesis by simp
  next
    case (Inr h)
    note o = os_open_Inr [OF op [unfolded Inr]]
    then have hp: "hpath h = p" by simp
    from op Inr run obtain r2 w2 where lp: "chunk_loop cb cs S pn ps h 0 w1 = Some (r2, w2)"
      by (auto simp: one_pass_def split: option.splits)
    obtain r3 w3 where cl: "f_close h w2 = (r3, w3)" by (cases "f_close h w2") auto
    from op Inr run lp cl have res: "w' = w3"
      "r = (case r3 of Inl e' \<Rightarrow> Inl e' | Inr u \<Rightarrow> (case r2 of Inl e \<Rightarrow> Inl e | Inr u \<Rightarrow> Inr ()))"
      by (auto simp: one_pass_def split: sum.splits)
    define b where "b \<longleftrightarrow> r3 = Inr ()"
    from f_close_log [OF cl] hp have c: "log w3 = log w2 @ [Sys (Close p) b]"
      "if b then r3 = Inr () else r3 = Inl OSError"
      "fs w3 = fs w2" "faults w3 = faults w2" "rng w3 = rng w2"
      by (auto simp: b_def)
    from chunk_loop_shape [OF lp] hp obtain mid where m: "log w2 = log w1 @ mid"
      and sh: "case r2 of
              Inr b \<Rightarrow> (\<forall>x\<in>set mid. chunk_event x)
            | Inl e \<Rightarrow>
                ((\<forall>x\<in>set mid. chunk_event x) \<and>
                   (is_Exception e \<or> (\<exists>s i v l. cb = Some s \<and> s i v l = Some e))) \<or>
                (e = OSError \<and>
                   (\<exists>pre c. mid = pre @ [Sys c False] \<and> is_overwrite c \<and>
                      (\<forall>x\<in>set pre. chunk_event x)))"
      and fr: "os_path_isfile w2 p \<longleftrightarrow> os_path_isfile w1 p" "\<forall>q. q \<noteq> p \<longrightarrow> fs w2 q = fs w1 q"
        "faults w2 = faults w1" "rng w2 = rng w1"
      by auto
    have l: "log w' = log w @ (Sys (Open p) True # mid @ [Sys (Close p) b])"
      using o m c res by simp
    have "fs w1 = fs w" using o by simp
    from isfile_fs_cong [OF this, of p] isfile_fs_cong [OF c(3), of p]
    have frame: "(os_path_isfile w' p \<longleftrightarrow> os_path_isfile w p) \<and>
      (\<forall>q. q \<noteq> p \<longrightarrow> fs w' q = fs w q) \<and> faults w' = faults w \<and> rng w' = rng w"
      using o fr c res by simp
    let ?calm = "\<lambda>b. (\<forall>x\<in>set mid. chunk_event x) \<and>
         (if b then r = Inr () \<or>
                    (\<exists>e. r = Inl e \<and> (is_Exception e \<or> (\<exists>s i v l. cb = Some s \<and> s i v l = Some e)))
          else r = Inl OSError)"
    have cases: "?calm b \<or>
      (\<exists>pre c. mid = pre @ [Sys c False] \<and> (\<forall>x\<in>set pre. chunk_event x) \<and> is_overwrite c \<and>
         r = Inl OSError)"
    proof (cases r2)
      case (Inr u)
      with sh have "\<forall>x\<in>set mid. chunk_event x" by simp
      moreover from Inr res c(2) have "if b then r = Inr () else r = Inl OSError"
        by (cases b) auto
      ultimately show ?thesis by (cases b) simp_all
    next
      case (Inl e)
      from Inl res c(2) have rb: "if b then r = Inl e else r = Inl OSError"
        by (cases b) auto
      from Inl sh have "((\<forall>x\<in>set mid. chunk_event x) \<and>
                   (is_Exception e \<or> (\<exists>s i v l. cb = Some s \<and> s i v l = Some e))) \<or>
                (e = OSError \<and>
                   (\<exists>pre c. mid = pre @ [Sys c False] \<and> is_overwrite c \<and>
                      (\<forall>x\<in>set pre. chunk_event x)))" by simp
      then show ?thesis
      proof
        assume a: "(\<forall>x\<in>set mid. chunk_event x) \<and>
                   (is_Exception e \<or> (\<exists>s i v l. cb = Some s \<and> s i v l = Some e))"
        with rb have "?calm b" by (cases b) simp_all
        then show ?thesis ..
      next
        assume a: "e = OSError \<and>
                   (\<exists>pre c. mid = pre @ [Sys c False] \<and> is_overwrite c \<and>
                      (\<forall>x\<in>set pre. chunk_event x))"
        with rb have "r = Inl OSError" by (cases b) simp_all
        with a show ?thesis by blast
      qed
    qed
    show ?thesis
      using cases
    proof
      assume "?calm b"
      with l have "\<exists>evs. log w' = log w @ evs \<and>
        (\<exists>mid b. evs = Sys (Open p) True # mid @ [Sys (Close p) b] \<and>
         (\<forall>x\<in>set mid. chunk_event x) \<and>
         (if b then r = Inr () \<or>
                    (\<exists>e. r = Inl e \<and> (is_Exception e \<or> (\<exists>s i v l. cb = Some s \<and> s i v l = Some e)))
          else r = Inl OSError))" by blast
      with frame show ?thesis by blast
    next
      assume "\<exists>pre c. mid = pre @ [Sys c False] \<and> (\<forall>x\<in>set pre. chunk_event x) \<and> is_overwrite c \<and>
         r = Inl OSError"
      then obtain pre c where pc: "mid = pre @ [Sys c False]" "\<forall>x\<in>set pre. chunk_event x"
        "is_overwrite c" "r = Inl OSError" by blast
      from l pc(1) have "log w' = log w @ (Sys (Open p) True # pre @ [Sys c False, Sys (Close p) b])"
        by simp
      with pc have "\<exists>evs. log w' = log w @ evs \<and>
        (\<exists>mid c b. evs = Sys (Open p) True # mid @ [Sys c False, Sys (Close p) b] \<and>
         (\<forall>x\<in>set mid. chunk_event x) \<and> is_overwrite c \<and> r = Inl OSError)" by blast
      with frame show ?thesis by blast
    qed

  qed
qed

lemma chunk_event_calm:
  "chunk_event x \<Longrightarrow> \<not> failed x \<and> \<not> obfuscation x \<and> \<not> failed_overwrite x"
  by (cases x rule: obfuscation.cases) auto

lemma passes_started_append: "passes_started (xs @ ys) = passes_started xs + passes_started ys"
  by (induction xs rule: passes_started.induct) auto

lemma passes_started_chunk: "(\<forall>x\<in>set xs. chunk_event x) \<Longrightarrow> passes_started xs = 0"
  by (induction xs rule: passes_started.induct) auto

lemma one_pass_phase:
  assumes run: "one_pass p cb cs S ps pn w = Some (r, w')"
  shows "\<exists>evs. log w' = log w @ evs \<and> pass_phase p cb r evs \<and>
           (r = Inr () \<longrightarrow> passes_started evs = 1)"
proof -
  from one_pass_shape [OF run] obtain evs where l: "log w' = log w @ evs"
    and sh: "(r = Inl OSError \<and> evs = [Sys (Open p) False]) \<or>
      (\<exists>mid b. evs = Sys (Open p) True # mid @ [Sys (Close p) b] \<and>
         (\<forall>x\<in>set mid. chunk_event x) \<and>
         (if b then r = Inr () \<or>
                    (\<exists>e. r = Inl e \<and> (is_Exception e \<or> (\<exists>s i v l. cb = Some s \<and> s i v l = Some e)))
          else r = Inl OSError)) \<or>
      (\<exists>mid c b. evs = Sys (Open p) True # mid @ [Sys c False, Sys (Close p) b] \<and>
         (\<forall>x\<in>set mid. chunk_event x) \<and> is_overwrite c \<and> r = Inl OSError)"
    by blast
  from sh consider
      (noopen) "r = Inl OSError" "evs = [Sys (Open p) False]"
    | (calm) mid b where "evs = Sys (Open p) True # mid @ [Sys (Close p) b]"
        "\<forall>x\<in>set mid. chunk_event x"
        "if b then r = Inr () \<or>
                    (\<exists>e. r = Inl e \<and> (is_Exception e \<or> (\<exists>s i v l. cb = Some s \<and> s i v l = Some e)))
          else r = Inl OSError"
    | (broken) mid c b where "evs = Sys (Open p) True # mid @ [Sys c False, Sys (Close p) b]"
        "\<forall>x\<in>set mid. chunk_event x" "is_overwrite c" "r = Inl OSError"
    by blast
  then have "pass_phase p cb r evs \<and> (r = Inr () \<longrightarrow> passes_started evs = 1)"
  proof cases
    case noopen
    then show ?thesis by (simp add: pass_phase_def)
  next
    case calm
    from calm(2) have m: "\<forall>x\<in>set mid. \<not> failed x \<and> \<not> obfuscation x \<and> \<not> failed_overwrite x"
      using chunk_event_calm by blast
    have ps: "passes_started evs = 1"
      using calm(1) passes_started_chunk [OF calm(2)] by (simp add: passes_started_append)
    show ?thesis
    proof (cases b)
      case True
      with calm(1,3) m ps show ?thesis by (auto simp: pass_phase_def)
    next
      case False
      with calm(1,3) m ps show ?thesis by (auto simp: pass_phase_def)
    qed
  next
    case broken
    from broken(2) have m: "\<forall>x\<in>set mid. \<not> failed x \<and> \<not> obfuscation x \<and> \<not> failed_overwrite x"
      using chunk_event_calm by blast
    have "evs = (Sys (Open p) True # mid) @ [Sys c False, Sys (Close p) b] \<and> is_overwrite c \<and>
          (\<forall>x\<in>set (Sys (Open p) True # mid). \<not> failed x)"
      using broken m by simp
    then have "\<exists>pre c b. evs = pre @ [Sys c False, Sys (Close p) b] \<and> is_overwrite c \<and>
           (\<forall>x\<in>set pre. \<not> failed x)" by blast
    moreover have "\<forall>x\<in>set evs. \<not> obfuscation x"
      using broken m by (cases c) auto
    ultimately show ?thesis using broken(4) by (simp add: pass_phase_def)
  qed
  with l show ?thesis by blast
qed

lemma pass_phase_append:
  assumes a: "pass_phase p cb (Inr ()) evs1" and b: "pass_phase p cb r evs2"
  shows "pass_phase p cb r (evs1 @ evs2)"
proof -
  from a have a1: "\<forall>x\<in>set evs1. \<not> obfuscation x" and a2: "\<forall>x\<in>set evs1. \<not> failed x"
    and a3: "\<not> (\<exists>x\<in>set evs1. failed_overwrite x)"
    by (auto simp: pass_phase_def)
  have "r = Inl OSError \<and>
        (\<exists>pre c b. evs1 @ evs2 = pre @ [Sys c False, Sys (Close p) b] \<and> is_overwrite c \<and>
           (\<forall>x\<in>set pre. \<not> failed x))"
    if "\<exists>x\<in>set (evs1 @ evs2). failed_overwrite x"
  proof -
    from that a3 have "\<exists>x\<in>set evs2. failed_overwrite x" by auto
    with b obtain pre c b' where r: "r = Inl OSError"
      and e: "evs2 = pre @ [Sys c False, Sys (Close p) b']" "is_overwrite c" "\<forall>x\<in>set pre. \<not> failed x"
      unfolding pass_phase_def by blast
    from e a2 have "evs1 @ evs2 = (evs1 @ pre) @ [Sys c False, Sys (Close p) b'] \<and> is_overwrite c \<and>
        (\<forall>x\<in>set (evs1 @ pre). \<not> failed x)" by auto
    with r show ?thesis by blast
  qed
  moreover from a1 b have "\<forall>x\<in>set (evs1 @ evs2). \<not> obfuscation x"
    by (auto simp: pass_phase_def)
  moreover from a2 b have "r = Inr () \<longrightarrow> (\<forall>x\<in>set (evs1 @ evs2). \<not> failed x)"
    by (auto simp: pass_phase_def)
  moreover from b have "\<forall>e. r = Inl e \<longrightarrow> is_Exception e \<or> (\<exists>s i v l. cb = Some s \<and> s i v l = Some e)"
    by (simp add: pass_phase_def)
  ultimately show ?thesis unfolding pass_phase_def by blast
qed

lemma pass_loop_phase:
  assumes "pass_loop p cb cs S ps pn todo w = Some (r, w')"
  shows "(\<exists>evs. log w' = log w @ evs \<and> pass_phase p cb r evs \<and>
           (r = Inr () \<longrightarrow> passes_started evs = todo)) \<and>
         (os_path_isfile w' p \<longleftrightarrow> os_path_isfile w p) \<and>
         (\<forall>q. q \<noteq> p \<longrightarrow> fs w' q = fs w q) \<and> faults w' = faults w \<and> rng w' = rng w"
  using assms
proof (induction todo arbitrary: pn w)
  case 0
  then have "r = Inr ()" "w' = w" by simp_all
  moreover have "log w = log w @ [] \<and> pass_phase p cb (Inr ()) [] \<and> passes_started [] = 0"
    by (simp add: pass_phase_def)
  ultimately show ?case by blast
next
  case (Suc todo)
  from Suc.prems obtain r1 w1 where op: "one_pass p cb cs S ps pn w = Some (r1, w1)"
    by (auto split: option.splits)
  from one_pass_phase [OF op] obtain evs1 where e1: "log w1 = log w @ evs1"
    "pass_phase p cb r1 evs1" "r1 = Inr () \<longrightarrow> passes_started evs1 = 1" by blast
  from one_pass_shape [OF op] have fr1: "os_path_isfile w1 p \<longleftrightarrow> os_path_isfile w p"
    "\<forall>q. q \<noteq> p \<longrightarrow> fs w1 q = fs w q" "faults w1 = faults w" "rng w1 = rng w" by blast+
  show ?case
  proof (cases r1)
    case (Inl e)
    with Suc.prems op have "r = r1" "w' = w1" by simp_all
    with e1 fr1 Inl show ?thesis by auto
  next
    case (Inr u)
    with Suc.prems op have rest: "pass_loop p cb cs S ps (pn + 1) todo w1 = Some (r, w')" by simp
    from Suc.IH [OF rest] obtain evs2 where e2: "log w' = log w1 @ evs2"
      "pass_phase p cb r evs2" "r = Inr () \<longrightarrow> passes_started evs2 = todo"
      and fr2: "os_path_isfile w' p \<longleftrightarrow> os_path_isfile w1 p"
      "\<forall>q. q \<noteq> p \<longrightarrow> fs w' q = fs w1 q" "faults w' = faults w1" "rng w' = rng w1" by blast
    from Inr e1 have p1: "pass_phase p cb (Inr ()) evs1" "passes_started evs1 = 1" by simp_all
    have "log w' = log w @ (evs1 @ evs2) \<and> pass_phase p cb r (evs1 @ evs2) \<and>
          (r = Inr () \<longrightarrow> passes_started (evs1 @ evs2) = Suc todo)"
      using e1(1) e2 p1 pass_phase_append [OF p1(1) e2(2)] by (simp add: passes_started_append)
    then have "\<exists>evs. log w' = log w @ evs \<and> pass_phase p cb r evs \<and>
           (r = Inr () \<longrightarrow> passes_started evs = Suc todo)" by blast
    with fr1 fr2 show ?thesis by simp
  qed
qed

subsection \<open>Renaming and removing\<close>

lemma random_choices_eq:
  "random_choices pop k w =
     (map (\<lambda>i. pop ! (rng w (drawn w + i) mod length pop)) [0..<k], w\<lparr>drawn := drawn w + k\<rparr>)"
proof (induction k arbitrary: w)
  case 0
  show ?case by simp
next
  case (Suc k)
  have "map (\<lambda>i. pop ! (rng w (drawn w + i) mod length pop)) [0..<Suc k] =
        pop ! (rng w (drawn w) mod length pop) #
        map (\<lambda>i. pop ! (rng w (Suc (drawn w) + i) mod length pop)) [0..<k]"
    by (simp add: upt_conv_Cons map_Suc_upt [symmetric] del: upt_Suc)
  then show ?case
    by (simp add: Suc del: upt_Suc)
qed

lemma random_choices_hex:
  "random_choices ''0123456789abcdef'' 32 w = (draw_name (rng w) (drawn w), w\<lparr>drawn := drawn w + 32\<rparr>)"
  by (simp add: random_choices_eq draw_name_def del: upt_Suc)

lemma os_rename_Inr:
  "os_rename src dst w = (Inr u, w') \<Longrightarrow>
     log w' = log w @ [Sys (Rename src dst) True] \<and> rename_ok w src dst \<and>
     fs w' = (if src = dst then fs w else (fs w)(dst := fs w src, src := None)) \<and>
     faults w' = faults w \<and> clock w' = Suc (clock w) \<and> calls w' = calls w \<and>
     rng w' = rng w \<and> drawn w' = drawn w"
  by (auto simp: os_rename_def attempt_eq split: if_splits)

lemma os_rename_Inl:
  "os_rename src dst w = (Inl e, w') \<Longrightarrow>
     e = OSError \<and> log w' = log w @ [Sys (Rename src dst) False] \<and> fs w' = fs w \<and>
     faults w' = faults w \<and> clock w' = Suc (clock w) \<and> calls w' = calls w \<and>
     rng w' = rng w \<and> drawn w' = drawn w"
  by (auto simp: os_rename_def attempt_eq split: if_splits)

lemma os_remove_Inr:
  "os_remove p w = (Inr u, w') \<Longrightarrow>
     log w' = log w @ [Sys (Remove p) True] \<and> fs w' = (fs w)(p := None) \<and>
     faults w' = faults w \<and> clock w' = Suc (clock w) \<and> calls w' = calls w \<and>
     rng w' = rng w \<and> drawn w' = drawn w"
  by (auto simp: os_remove_def attempt_eq split: if_splits)

lemma os_remove_Inl:
  "os_remove p w = (Inl e, w') \<Longrightarrow>
     e = OSError \<and> log w' = log w @ [Sys (Remove p) False] \<and> fs w' = fs w \<and>
     faults w' = faults w \<and> clock w' = Suc (clock w) \<and> calls w' = calls w \<and>
     rng w' = rng w \<and> drawn w' = drawn w"
  by (auto simp: os_remove_def attempt_eq split: if_splits)

lemma targets_Suc:
  "targets d g k (Suc n) = os_path_join d (draw_name g k) # targets d g (k + 32) n"
proof -
  have "map (\<lambda>j. os_path_join d (draw_name g (k + 32 * j))) [0..<Suc n] =
        os_path_join d (draw_name g k) # map (\<lambda>j. os_path_join d (draw_name g (k + 32 + 32 * j))) [0..<n]"
    by (simp add: upt_conv_Cons map_Suc_upt [symmetric] add.assoc del: upt_Suc)
  then show ?thesis by (simp add: targets_def del: upt_Suc)
qed

lemma targets_0: "targets d g k 0 = []"
  by (simp add: targets_def)

lemma rename_loop_Inr:
  "rename_loop n d cur w = (Inr final, w') \<Longrightarrow>
     log w' = log w @ rename_events cur (targets d (rng w) (drawn w) n) \<and>
     final = last (cur # targets d (rng w) (drawn w) n) \<and>
     rng w' = rng w \<and> drawn w' = drawn w + 32 * n \<and> faults w' = faults w \<and> calls w' = calls w"
proof (induction n arbitrary: cur w)
  case 0
  then show ?case by (simp add: targets_0)
next
  case (Suc n)
  let ?w1 = "w\<lparr>drawn := drawn w + 32\<rparr>"
  let ?t = "os_path_join d (draw_name (rng w) (drawn w))"
  obtain r2 w2 where rn: "os_rename cur ?t ?w1 = (r2, w2)" by (cases "os_rename cur ?t ?w1") auto
  show ?case
  proof (cases r2)
    case (Inl e)
    with Suc.prems rn show ?thesis
      by (simp add: random_choices_hex and_then_def del: random_choices.simps)
  next
    case (Inr u)
    with Suc.prems rn have rest: "rename_loop n d ?t w2 = (Inr final, w')"
      by (simp add: random_choices_hex and_then_def del: random_choices.simps)
    note a = os_rename_Inr [OF rn [unfolded Inr]]
    from Suc.IH [OF rest] a show ?thesis
      by (simp add: targets_Suc)
  qed
qed

lemma rename_events_obfuscation: "\<forall>x\<in>set (rename_events cur ts). obfuscation x \<and> \<not> failed x"
  by (induction ts arbitrary: cur) auto

lemma rename_loop_Inl:
  "rename_loop n d cur w = (Inl e, w') \<Longrightarrow>
     e = OSError \<and> (\<exists>evs. log w' = log w @ evs \<and> (\<forall>x\<in>set evs. obfuscation x))"
proof (induction n arbitrary: cur w)
  case 0
  then show ?case by simp
next
  case (Suc n)
  let ?w1 = "w\<lparr>drawn := drawn w + 32\<rparr>"
  let ?t = "os_path_join d (draw_name (rng w) (drawn w))"
  obtain r2 w2 where rn: "os_rename cur ?t ?w1 = (r2, w2)" by (cases "os_rename cur ?t ?w1") auto
  show ?case
  proof (cases r2)
    case (Inl e2)
    with Suc.prems rn have "e = e2" "w' = w2"
      by (simp_all add: random_choices_hex and_then_def del: random_choices.simps)
    with os_rename_Inl [OF rn [unfolded Inl]] show ?thesis by simp
  next
    case (Inr u)
    with Suc.prems rn have rest: "rename_loop n d ?t w2 = (Inl e, w')"
      by (simp add: random_choices_hex and_then_def del: random_choices.simps)
    from Suc.IH [OF rest] obtain evs where "e = OSError" "log w' = log w2 @ evs"
      "\<forall>x\<in>set evs. obfuscation x" by blast
    with os_rename_Inr [OF rn [unfolded Inr]]
    have "log w' = log w @ (Sys (Rename cur ?t) True # evs) \<and>
          (\<forall>x\<in>set (Sys (Rename cur ?t) True # evs). obfuscation x)" by simp
    with \<open>e = OSError\<close> show ?thesis by blast
  qed
qed

lemma final_progress_Inr:
  "final_progress cb w = (Inr u, w') \<Longrightarrow>
     log w' = log w @ (case cb of None \<Rightarrow> [] | Some s \<Rightarrow> [Progress (Finite 100) ''Fertig!'']) \<and>
     fs w' = fs w \<and> faults w' = faults w \<and> rng w' = rng w \<and> drawn w' = drawn w"
  by (auto simp: final_progress_def invoke_def Let_def split: option.splits)

lemma final_progress_Inl:
  "final_progress cb w = (Inl e, w') \<Longrightarrow>
     (\<exists>s. cb = Some s \<and> s (calls w) (Finite 100) ''Fertig!'' = Some e) \<and>
     log w' = log w @ [Progress (Finite 100) ''Fertig!''] \<and>
     fs w' = fs w \<and> faults w' = faults w \<and> rng w' = rng w \<and> drawn w' = drawn w"
  by (auto simp: final_progress_def invoke_def Let_def split: option.splits)

lemma obfuscate_and_delete_Inr:
  assumes "obfuscate_and_delete p cb w = (Inr b, w')"
  shows "b \<and>
     log w' = log w @ rename_events p (targets (os_path_dirname p) (rng w) (drawn w) 3) @
               [Sys (Remove (last (p # targets (os_path_dirname p) (rng w) (drawn w) 3))) True] @
               (case cb of None \<Rightarrow> [] | Some s \<Rightarrow> [Progress (Finite 100) ''Fertig!'']) \<and>
     fs w' (last (p # targets (os_path_dirname p) (rng w) (drawn w) 3)) = None"
proof -
  let ?d = "os_path_dirname p"
  obtain r1 w1 where rl: "rename_loop 3 ?d p w = (r1, w1)" by (cases "rename_loop 3 ?d p w") auto
  from assms rl obtain final where r1: "r1 = Inr final"
    by (cases r1) (auto simp: obfuscate_and_delete_def and_then_def)
  obtain r2 w2 where rm: "os_remove final w1 = (r2, w2)" by (cases "os_remove final w1") auto
  from assms rl r1 rm obtain u where r2: "r2 = Inr u"
    by (cases r2) (auto simp: obfuscate_and_delete_def and_then_def)
  obtain r3 w3 where fp: "final_progress cb w2 = (r3, w3)" by (cases "final_progress cb w2") auto
  from assms rl r1 rm r2 fp obtain u' where r3: "r3 = Inr u'" and res: "b" "w' = w3"
    by (cases r3) (auto simp: obfuscate_and_delete_def and_then_def)
  from rename_loop_Inr [OF rl [unfolded r1]] os_remove_Inr [OF rm [unfolded r2]]
    final_progress_Inr [OF fp [unfolded r3]] res
  show ?thesis by simp
qed

lemma obfuscate_and_delete_Inl:
  assumes "obfuscate_and_delete p cb w = (Inl e, w')"
  shows "(is_Exception e \<or> (\<exists>s i v l. cb = Some s \<and> s i v l = Some e)) \<and>
     (\<exists>evs fin. log w' = log w @ evs @ fin \<and> (\<forall>x\<in>set evs. obfuscation x) \<and>
        (fin = [] \<or> fin = [Progress (Finite 100) ''Fertig!'']))"
proof -
  let ?d = "os_path_dirname p"
  obtain r1 w1 where rl: "rename_loop 3 ?d p w = (r1, w1)" by (cases "rename_loop 3 ?d p w") auto
  show ?thesis
  proof (cases r1)
    case (Inl e1)
    with assms rl have "e = e1" "w' = w1" by (simp_all add: obfuscate_and_delete_def and_then_def)
    with rename_loop_Inl [OF rl [unfolded Inl]] obtain evs where "e = OSError"
      "log w' = log w @ evs @ []" "\<forall>x\<in>set evs. obfuscation x" by auto
    then show ?thesis by (metis is_Exception.simps(1))
  next
    case (Inr final)
    note a = rename_loop_Inr [OF rl [unfolded Inr]]
    let ?evs1 = "rename_events p (targets ?d (rng w) (drawn w) 3)"
    have o1: "\<forall>x\<in>set ?evs1. obfuscation x" using rename_events_obfuscation by blast
    obtain r2 w2 where rm: "os_remove final w1 = (r2, w2)" by (cases "os_remove final w1") auto
    show ?thesis
    proof (cases r2)
      case (Inl e2)
      with assms rl Inr rm have "e = e2" "w' = w2"
        by (simp_all add: obfuscate_and_delete_def and_then_def)
      with os_remove_Inl [OF rm [unfolded Inl]] a
      have "e = OSError" "log w' = log w @ (?evs1 @ [Sys (Remove final) False]) @ []" by simp_all
      moreover have "\<forall>x\<in>set (?evs1 @ [Sys (Remove final) False]). obfuscation x" using o1 by simp
      ultimately show ?thesis by (metis is_Exception.simps(1))
    next
      case r2: (Inr u)
      obtain r3 w3 where fp: "final_progress cb w2 = (r3, w3)" by (cases "final_progress cb w2") auto
      from assms rl Inr rm r2 fp have r3: "r3 = Inl e" and "w' = w3"
        by (cases r3; simp add: obfuscate_and_delete_def and_then_def)+
      from final_progress_Inl [OF fp [unfolded r3]] os_remove_Inr [OF rm [unfolded r2]] a \<open>w' = w3\<close>
      have "\<exists>s i v l. cb = Some s \<and> s i v l = Some e"
        and "log w' = log w @ (?evs1 @ [Sys (Remove final) True]) @ [Progress (Finite 100) ''Fertig!'']"
        by auto
      moreover have "\<forall>x\<in>set (?evs1 @ [Sys (Remove final) True]). obfuscation x" using o1 by simp
      ultimately show ?thesis by blast
    qed
  qed
qed

lemma get_file_size_Inr:
  "get_file_size p w = (Inr S, w') \<Longrightarrow>
     (\<exists>c. fs w p = Some (File c) \<and> S = int (length c)) \<and>
     log w' = log w @ [Sys (Stat p) True] \<and> fs w' = fs w \<and>
     faults w' = faults w \<and> clock w' = Suc (clock w) \<and> calls w' = calls w \<and>
     rng w' = rng w \<and> drawn w' = drawn w"
  by (auto simp: get_file_size_def attempt_eq split: if_splits option.splits node.splits)

lemma get_file_size_Inl:
  "get_file_size p w = (Inl e, w') \<Longrightarrow>
     e = OSError \<and> log w' = log w @ [Sys (Stat p) False] \<and> fs w' = fs w \<and>
     faults w' = faults w \<and> clock w' = Suc (clock w) \<and> calls w' = calls w \<and>
     rng w' = rng w \<and> drawn w' = drawn w"
  by (auto simp: get_file_size_def attempt_eq isfile_cases split: if_splits option.splits node.splits)

lemma shred_body_cases:
  assumes "shred_body w p m cb cs = Some (r, w')"
  obtains
    (notfile) "\<not> os_path_isfile w p" "r = Inr False" "w' = w"
  | (stat) e where "os_path_isfile w p" "get_file_size p w = (Inl e, w')" "r = Inl e"
  | (passes) S w1 e where "os_path_isfile w p" "get_file_size p w = (Inr S, w1)"
      "pass_loop p cb cs S (PATTERNS_get m 3) 0 (nat (PATTERNS_get m 3)) w1 = Some (Inl e, w')"
      "r = Inl e"
  | (obf) S w1 w2 where "os_path_isfile w p" "get_file_size p w = (Inr S, w1)"
      "pass_loop p cb cs S (PATTERNS_get m 3) 0 (nat (PATTERNS_get m 3)) w1 = Some (Inr (), w2)"
      "obfuscate_and_delete p cb w2 = (r, w')"
  using assms
  by (auto simp: shred_body_def Let_def split: if_splits prod.splits sum.splits option.splits)

lemma print_line_frame:
  "print_line text w = (r, w') \<Longrightarrow>
     log w' = log w \<and> fs w' = fs w \<and> faults w' = faults w \<and> rng w' = rng w \<and>
     (case r of Inl e \<Rightarrow> stdout w text = Some e | Inr u \<Rightarrow> stdout w text = None)"
  by (auto simp: print_line_def split: option.splits)

text \<open>The handler changes neither the log nor the file system; it returns \<open>False\<close>
  exactly when the exception is an \<open>Exception\<close> and the line is printed.\<close>

lemma except_handler_cases:
  assumes "except_handler p e w = (out, w')"
  shows "log w' = log w" and "fs w' = fs w" and "faults w' = faults w" and "rng w' = rng w"
    and "out = (if is_Exception e
                then (case stdout w (error_line w p e) of
                        None \<Rightarrow> Returned False | Some e' \<Rightarrow> Propagated e')
                else Propagated e)"
    and "stdout w' = stdout w" and "str_exn w' = str_exn w"
  using assms
  by (auto simp: except_handler_def print_line_def split: if_splits option.splits)

lemma shred_file_cases:
  assumes "shred_file w p m cb cs = Some (out, w')"
  obtains (returned) b where "shred_body w p m cb cs = Some (Inr b, w')" "out = Returned b"
  | (raised) e w1 where "shred_body w p m cb cs = Some (Inl e, w1)"
      "except_handler p e w1 = (out, w')"
  using assms
  by (auto simp: shred_file_def split: option.splits prod.splits sum.splits)

lemma shred_file_True:
  assumes "shred_file w p m cb cs = Some (Returned True, w')"
  shows "shred_body w p m cb cs = Some (Inr True, w')"
  using assms
proof (cases rule: shred_file_cases)
  case (returned b)
  then show ?thesis by simp
next
  case (raised e w1)
  from except_handler_cases(5) [OF raised(2)] show ?thesis
    by (simp split: if_splits option.splits)
qed

lemma obfuscation_not_failed_overwrite: "obfuscation x \<Longrightarrow> \<not> failed_overwrite x"
  by (cases x rule: obfuscation.cases) auto

subsection \<open>Standard output is not touched before the handler\<close>

lemma attempt_stdout: "attempt c f w = (ok, w') \<Longrightarrow> stdout w' = stdout w"
  by (auto simp: attempt_def Let_def)






















subsection \<open>A failing write stops the run\<close>

text \<open>When a write, a flush or a durability sync fails, the body of \<open>shred_file\<close> ends
  with \<open>OSError\<close>; the failed operation is followed in the log by the closing of the file
  and by nothing else, so no later pass is started; nothing is renamed or removed; and the
  file is still a regular file under its name, every other path being as it was.\<close>

lemma write_failure_body:
  assumes body: "shred_body w filepath method progress_callback chunk_size = Some (r, w')"
    and fail: "Sys c False \<in> set (events_since w w')" and ov: "is_overwrite c"
  shows "r = Inl OSError \<and>
         (\<exists>pre b. events_since w w' = pre @ [Sys c False, Sys (Close filepath) b] \<and>
                  (\<forall>x\<in>set pre. \<not> failed x) \<and>
                  passes_started (events_since w w') = passes_started pre) \<and>
         (\<forall>x\<in>set (events_since w w'). \<not> obfuscation x) \<and>
         os_path_isfile w' filepath \<and>
         (\<forall>q. q \<noteq> filepath \<longrightarrow> fs w' q = fs w q)"
proof -
  from fail ov have fo: "\<exists>x\<in>set (events_since w w'). failed_overwrite x"
    by (intro bexI [of _ "Sys c False"]) simp_all
  from body show ?thesis
  proof (cases rule: shred_body_cases)
    case notfile
    with fail show ?thesis by (simp add: events_since_self)
  next
    case (stat e)
    from get_file_size_Inl [OF stat(2)] have "log w' = log w @ [Sys (Stat filepath) False]" by simp
    from events_since_append [OF this] fail ov show ?thesis by auto
  next
    case (passes S w1 e)
    note g = get_file_size_Inr [OF passes(2)]
    from pass_loop_phase [OF passes(3)] obtain evs where l: "log w' = log w1 @ evs"
      and ph: "pass_phase filepath progress_callback (Inl e) evs"
      and fr: "os_path_isfile w' filepath \<longleftrightarrow> os_path_isfile w1 filepath"
        "\<forall>q. q \<noteq> filepath \<longrightarrow> fs w' q = fs w1 q"
      by blast
    from g l have "log w' = log w @ (Sys (Stat filepath) True # evs)" by simp
    from events_since_append [OF this] have ev: "events_since w w' = Sys (Stat filepath) True # evs" .
    with fo have "\<exists>x\<in>set evs. failed_overwrite x" by simp
    with ph obtain pre c' b where e: "e = OSError"
      and sh: "evs = pre @ [Sys c' False, Sys (Close filepath) b]" "\<forall>x\<in>set pre. \<not> failed x"
      and nob: "\<forall>x\<in>set evs. \<not> obfuscation x"
      unfolding pass_phase_def by blast
    from fail ev sh ov have "c' = c" by auto
    with ev sh have "events_since w w' = (Sys (Stat filepath) True # pre) @ [Sys c False, Sys (Close filepath) b] \<and>
       (\<forall>x\<in>set (Sys (Stat filepath) True # pre). \<not> failed x) \<and>
       passes_started (events_since w w') = passes_started (Sys (Stat filepath) True # pre)"
      by (simp add: passes_started_append)
    then have "\<exists>pre b. events_since w w' = pre @ [Sys c False, Sys (Close filepath) b] \<and>
                  (\<forall>x\<in>set pre. \<not> failed x) \<and>
                  passes_started (events_since w w') = passes_started pre" by blast
    moreover from passes(4) e have "r = Inl OSError" by simp
    moreover from ev nob have "\<forall>x\<in>set (events_since w w'). \<not> obfuscation x" by simp
    moreover from fr g passes(1) isfile_fs_cong [of w1 w filepath]
    have "os_path_isfile w' filepath \<and> (\<forall>q. q \<noteq> filepath \<longrightarrow> fs w' q = fs w q)" by simp
    ultimately show ?thesis by blast
  next
    case (obf S w1 w2)
    note g = get_file_size_Inr [OF obf(2)]
    from pass_loop_phase [OF obf(3)] obtain evs where l: "log w2 = log w1 @ evs"
      and ph: "pass_phase filepath progress_callback (Inr ()) evs" by blast
    from ph have nf: "\<forall>x\<in>set evs. \<not> failed x" by (simp add: pass_phase_def)
    have "\<exists>evs2 fin. log w' = log w2 @ evs2 @ fin \<and> (\<forall>x\<in>set evs2. obfuscation x) \<and>
            (fin = [] \<or> fin = [Progress (Finite 100) ''Fertig!''])"
    proof (cases r)
      case (Inl e)
      from obfuscate_and_delete_Inl [OF obf(4) [unfolded Inl]] show ?thesis by blast
    next
      case (Inr b)
      let ?ts = "targets (os_path_dirname filepath) (rng w2) (drawn w2) 3"
      from obfuscate_and_delete_Inr [OF obf(4) [unfolded Inr]]
      have "log w' = log w2 @ (rename_events filepath ?ts @ [Sys (Remove (last (filepath # ?ts))) True]) @
               (case progress_callback of None \<Rightarrow> [] | Some s \<Rightarrow> [Progress (Finite 100) ''Fertig!''])"
        by simp
      moreover have "\<forall>x\<in>set (rename_events filepath ?ts @ [Sys (Remove (last (filepath # ?ts))) True]). obfuscation x"
        using rename_events_obfuscation by auto
      moreover have "(case progress_callback of None \<Rightarrow> [] | Some s \<Rightarrow> [Progress (Finite 100) ''Fertig!'']) = [] \<or>
         (case progress_callback of None \<Rightarrow> [] | Some s \<Rightarrow> [Progress (Finite 100) ''Fertig!'']) = [Progress (Finite 100) ''Fertig!'']"
        by (cases progress_callback) simp_all
      ultimately show ?thesis by blast
    qed
    then obtain evs2 fin where l2: "log w' = log w2 @ evs2 @ fin" and o2: "\<forall>x\<in>set evs2. obfuscation x"
      and fin: "fin = [] \<or> fin = [Progress (Finite 100) ''Fertig!'']" by blast
    from g l l2 have "log w' = log w @ (Sys (Stat filepath) True # evs @ evs2 @ fin)" by simp
    from events_since_append [OF this]
    have ev: "events_since w w' = Sys (Stat filepath) True # evs @ evs2 @ fin" .
    from fo obtain x where x: "x \<in> set (events_since w w')" "failed_overwrite x" by blast
    from x(1) ev consider "x = Sys (Stat filepath) True" | "x \<in> set evs" | "x \<in> set evs2" | "x \<in> set fin"
      by auto
    then have False
    proof cases
      case 1
      with x(2) show False by simp
    next
      case 2
      with nf have "\<not> failed x" by blast
      with x(2) show False by (cases x) auto
    next
      case 3
      with o2 obfuscation_not_failed_overwrite x(2) show False by blast
    next
      case 4
      with fin x(2) show False by auto
    qed
    then show ?thesis ..
  qed
qed


text \<open>The same for the whole call: the handler of line 119 prints its line and returns
  \<open>False\<close>; when \<open>print\<close> raises, that exception leaves \<open>shred_file\<close> instead.\<close>

lemma write_failure_shape:
  assumes run: "shred_file w filepath method progress_callback chunk_size = Some (out, w')"
    and fail: "Sys c False \<in> set (events_since w w')" and ov: "is_overwrite c"
  shows "out = (case stdout w' (error_line w' filepath OSError) of
                  None \<Rightarrow> Returned False | Some e' \<Rightarrow> Propagated e')"
    and "\<exists>pre b. events_since w w' = pre @ [Sys c False, Sys (Close filepath) b] \<and>
                  (\<forall>x\<in>set pre. \<not> failed x) \<and>
                  passes_started (events_since w w') = passes_started pre"
    and "\<forall>x\<in>set (events_since w w'). \<not> obfuscation x"
    and "os_path_isfile w' filepath"
    and "\<forall>q. q \<noteq> filepath \<longrightarrow> fs w' q = fs w q"
proof -
  from run have "\<exists>e w1. shred_body w filepath method progress_callback chunk_size = Some (Inl e, w1) \<and>
      except_handler filepath e w1 = (out, w')"
  proof (cases rule: shred_file_cases)
    case (returned b)
    from write_failure_body [OF returned(1) fail ov] show ?thesis by simp
  next
    case (raised e w1)
    then show ?thesis by blast
  qed
  then obtain e w1
    where body: "shred_body w filepath method progress_callback chunk_size = Some (Inl e, w1)"
      and h: "except_handler filepath e w1 = (out, w')" by blast
  note hc = except_handler_cases [OF h]
  from hc(1) have ev: "events_since w w' = events_since w w1" by (simp add: events_since_def)
  from fail ev have fail1: "Sys c False \<in> set (events_since w w1)" by simp
  note b = write_failure_body [OF body fail1 ov]
  from b have e: "e = OSError" by simp
  from hc(5,6,7) e
  show "out = (case stdout w' (error_line w' filepath OSError) of
                  None \<Rightarrow> Returned False | Some e' \<Rightarrow> Propagated e')"
    by (simp add: error_line_def)
  from b ev
  show "\<exists>pre b. events_since w w' = pre @ [Sys c False, Sys (Close filepath) b] \<and>
                  (\<forall>x\<in>set pre. \<not> failed x) \<and>
                  passes_started (events_since w w') = passes_started pre" by simp
  from b ev show "\<forall>x\<in>set (events_since w w'). \<not> obfuscation x" by simp
  from b isfile_fs_cong [OF hc(2), of filepath] show "os_path_isfile w' filepath" by simp
  from b hc(2) show "\<forall>q. q \<noteq> filepath \<longrightarrow> fs w' q = fs w q" by simp
qed


subsection \<open>Paths and names\<close>

lemma rstrip_sep_form: "rstrip_sep s = [] \<or> last (rstrip_sep s) \<noteq> CHR ''/''"
proof (cases "dropWhile (\<lambda>c. c = CHR ''/'') (rev s)")
  case Nil
  then show ?thesis by (simp add: rstrip_sep_def)
next
  case (Cons x xs)
  from hd_dropWhile [of "\<lambda>c. c = CHR ''/''" "rev s"] Cons have "x \<noteq> CHR ''/''" by simp
  with Cons show ?thesis by (simp add: rstrip_sep_def)
qed

lemma dirname_form:
  "os_path_dirname p = [] \<or> (\<forall>c\<in>set (os_path_dirname p). c = CHR ''/'') \<or>
   last (os_path_dirname p) \<noteq> CHR ''/''"
  using rstrip_sep_form [of "rev (dropWhile (\<lambda>c. c \<noteq> CHR ''/'') (rev p))"]
  by (auto simp: os_path_dirname_def Let_def)

lemma dirname_no_sep:
  assumes "CHR ''/'' \<notin> set n"
  shows "os_path_dirname n = []"
proof -
  from assms have "\<forall>c\<in>set (rev n). c \<noteq> CHR ''/''" by auto
  then have "dropWhile (\<lambda>c. c \<noteq> CHR ''/'') (rev n) = []" by simp
  then show ?thesis by (simp add: os_path_dirname_def)
qed

lemma dirname_append_seps:
  assumes n: "CHR ''/'' \<notin> set n" and d: "d \<noteq> []" "\<forall>c\<in>set d. c = CHR ''/''"
  shows "os_path_dirname (d @ n) = d"
proof -
  from n have a: "\<forall>c\<in>set (rev n). c \<noteq> CHR ''/''" by auto
  from d have "rev d \<noteq> []" "hd (rev d) = CHR ''/''" by (auto simp: hd_rev)
  then have b: "dropWhile (\<lambda>c. c \<noteq> CHR ''/'') (rev d) = rev d" by (cases "rev d") auto
  from a have "dropWhile (\<lambda>c. c \<noteq> CHR ''/'') (rev n @ rev d) = dropWhile (\<lambda>c. c \<noteq> CHR ''/'') (rev d)"
    by (intro dropWhile_append2) blast
  with b have "rev (dropWhile (\<lambda>c. c \<noteq> CHR ''/'') (rev (d @ n))) = d" by simp
  with d show ?thesis by (simp add: os_path_dirname_def Let_def)
qed

lemma dirname_append_sep_name:
  assumes n: "CHR ''/'' \<notin> set n" and d: "d \<noteq> []" "last d \<noteq> CHR ''/''"
  shows "os_path_dirname (d @ ''/'' @ n) = d"
proof -
  from n have a: "\<forall>c\<in>set (rev n). c \<noteq> CHR ''/''" by auto
  have "rev (d @ ''/'' @ n) = rev n @ (CHR ''/'' # rev d)" by simp
  moreover from a have "dropWhile (\<lambda>c. c \<noteq> CHR ''/'') (rev n @ (CHR ''/'' # rev d)) =
      dropWhile (\<lambda>c. c \<noteq> CHR ''/'') (CHR ''/'' # rev d)"
    by (intro dropWhile_append2) blast
  ultimately have "dropWhile (\<lambda>c. c \<noteq> CHR ''/'') (rev (d @ ''/'' @ n)) = CHR ''/'' # rev d"
    by simp
  then have h: "rev (dropWhile (\<lambda>c. c \<noteq> CHR ''/'') (rev (d @ ''/'' @ n))) = d @ ''/''" by simp
  from d have "last d \<in> set (d @ ''/'') \<and> last d \<noteq> CHR ''/''" by simp
  then have ns: "\<not> (\<forall>c\<in>set (d @ ''/''). c = CHR ''/'')" by blast
  from d have "rev d \<noteq> []" "hd (rev d) \<noteq> CHR ''/''" by (auto simp: hd_rev)
  then have "dropWhile (\<lambda>c. c = CHR ''/'') (rev d) = rev d" by (cases "rev d") auto
  then have "rstrip_sep (d @ ''/'') = d" by (simp add: rstrip_sep_def)
  with h ns show ?thesis by (simp add: os_path_dirname_def Let_def)
qed

lemma dirname_join:
  assumes n: "CHR ''/'' \<notin> set n"
  shows "os_path_dirname (os_path_join (os_path_dirname p) n) = os_path_dirname p"
proof -
  let ?d = "os_path_dirname p"
  from n have nh: "(n \<noteq> [] \<and> hd n = CHR ''/'') = False" by (cases n) auto
  from dirname_form [of p] consider
      (empty) "?d = []"
    | (seps) "?d \<noteq> []" "\<forall>c\<in>set ?d. c = CHR ''/''"
    | (plain) "?d \<noteq> []" "last ?d \<noteq> CHR ''/''" by blast
  then show ?thesis
  proof cases
    case empty
    with dirname_no_sep [OF n] show ?thesis by (simp add: os_path_join_def nh)
  next
    case seps
    then have "last ?d = CHR ''/''" by simp
    with seps dirname_append_seps [OF n seps] show ?thesis by (simp add: os_path_join_def nh)
  next
    case plain
    with dirname_append_sep_name [OF n plain] show ?thesis by (simp add: os_path_join_def nh)
  qed
qed

lemma draw_name_length: "length (draw_name g k) = 32"
  by (simp add: draw_name_def)

lemma draw_name_hex: "set (draw_name g k) \<subseteq> set ''0123456789abcdef''"
proof
  fix c assume "c \<in> set (draw_name g k)"
  then obtain i where "c = ''0123456789abcdef'' ! (g (k + i) mod 16)"
    by (auto simp: draw_name_def simp del: upt_Suc)
  moreover have "g (k + i) mod 16 < length ''0123456789abcdef''" by simp
  ultimately show "c \<in> set ''0123456789abcdef''" using nth_mem by metis
qed

lemma draw_name_no_sep: "CHR ''/'' \<notin> set (draw_name g k)"
  using draw_name_hex [of g k] by auto

lemma targets_3:
  "targets d g k 3 =
     [os_path_join d (draw_name g k), os_path_join d (draw_name g (k + 32)),
      os_path_join d (draw_name g (k + 64))]"
  by (simp add: numeral_3_eq_3 targets_Suc targets_0 add.commute)

subsection \<open>Runs on which nothing fails\<close>

lemma one_pass_ok:
  assumes cs: "0 < cs" and pn: "0 \<le> pn" "pn < ps"
    and q: "\<forall>n. \<not> faults w n" and f: "os_path_isfile w p"
    and s: "\<forall>s i v l. cb = Some s \<longrightarrow> s i v l = None"
  shows "\<exists>w'. one_pass p cb cs S ps pn w = Some (Inr (), w')"
proof -
  from os_open_ok [OF f] q obtain w1 where op: "os_open p w = (Inr \<lparr>hpath = p, pos = 0\<rparr>, w1)"
    by blast
  let ?h = "\<lparr>hpath = p, pos = 0\<rparr>"
  from os_open_Inr [OF op] q f have q1: "\<forall>n. \<not> faults w1 n" and f1: "os_path_isfile w1 (hpath ?h)"
    using isfile_fs_cong [of w1 w p] by simp_all
  from chunk_loop_ok [OF cs pn _ q1 f1 s, of 0 S] obtain b w2
    where lp: "chunk_loop cb cs S pn ps ?h 0 w1 = Some (Inr b, w2)" by auto
  from chunk_loop_shape [OF lp] q1 have q2: "\<forall>n. \<not> faults w2 n" by simp
  from f_close_ok [of w2 ?h] q2 obtain w3 where cl: "f_close ?h w2 = (Inr (), w3)" by blast
  from op lp cl have "one_pass p cb cs S ps pn w = Some (Inr (), w3)"
    by (simp add: one_pass_def)
  then show ?thesis by blast
qed

lemma pass_loop_ok:
  assumes cs: "0 < cs"
    and s: "\<forall>s i v l. cb = Some s \<longrightarrow> s i v l = None"
    and pn: "0 \<le> pn" "pn + int todo \<le> ps"
    and q: "\<forall>n. \<not> faults w n" and f: "os_path_isfile w p"
  shows "\<exists>w'. pass_loop p cb cs S ps pn todo w = Some (Inr (), w')"
  using pn q f
proof (induction todo arbitrary: pn w)
  case 0
  show ?case by simp
next
  case (Suc todo)
  from Suc.prems(1,2) have lt: "pn < ps" by simp
  from one_pass_ok [OF cs Suc.prems(1) lt Suc.prems(3,4) s] obtain w1
    where op: "one_pass p cb cs S ps pn w = Some (Inr (), w1)" by blast
  from one_pass_shape [OF op] Suc.prems
  have a: "\<forall>n. \<not> faults w1 n" "os_path_isfile w1 p" by simp_all
  from Suc.prems(1,2) have b: "0 \<le> pn + 1" "pn + 1 + int todo \<le> ps" by simp_all
  from Suc.IH [OF b a] op show ?case by simp
qed

lemma os_rename_ok:
  "rename_ok w src dst \<Longrightarrow> \<not> faults w (clock w) \<Longrightarrow> \<exists>w'. os_rename src dst w = (Inr (), w')"
  by (simp add: os_rename_def attempt_eq)

lemma os_remove_ok:
  "os_path_isfile w p \<Longrightarrow> \<not> faults w (clock w) \<Longrightarrow> \<exists>w'. os_remove p w = (Inr (), w')"
  by (auto simp: os_remove_def attempt_eq isfile_cases)

lemma final_progress_ok:
  "\<forall>s i v l. cb = Some s \<longrightarrow> s i v l = None \<Longrightarrow> \<exists>w'. final_progress cb w = (Inr (), w')"
  by (cases cb) (auto simp: final_progress_def invoke_def Let_def)

lemma rename_loop_ok:
  assumes q: "\<forall>n. \<not> faults w n" and f: "os_path_isfile w cur"
    and nd: "\<forall>j. fs w (os_path_join d (draw_name (rng w) j)) \<noteq> Some Dir"
  shows "\<exists>final w'. rename_loop k d cur w = (Inr final, w') \<and> os_path_isfile w' final \<and>
           (\<forall>n. \<not> faults w' n)"
  using q f nd
proof (induction k arbitrary: cur w)
  case 0
  then show ?case by simp
next
  case (Suc k)
  let ?w1 = "w\<lparr>drawn := drawn w + 32\<rparr>"
  let ?t = "os_path_join d (draw_name (rng w) (drawn w))"
  from Suc.prems(2) obtain c where c: "fs w cur = Some (File c)" by (auto simp: isfile_cases)
  from Suc.prems(3) have "fs w ?t \<noteq> Some Dir" by blast
  with c have ok: "rename_ok ?w1 cur ?t"
    by (auto simp: rename_ok_def split: option.splits)
  from os_rename_ok [OF ok] Suc.prems(1) obtain w2 where rn: "os_rename cur ?t ?w1 = (Inr (), w2)"
    by auto
  note a = os_rename_Inr [OF rn]
  from a Suc.prems(1) have q2: "\<forall>n. \<not> faults w2 n" by simp
  from a c have f2: "os_path_isfile w2 ?t" by (auto simp: isfile_cases)
  from a c Suc.prems(3) have nd2: "\<forall>j. fs w2 (os_path_join d (draw_name (rng w2) j)) \<noteq> Some Dir"
    by auto
  from Suc.IH [OF q2 f2 nd2] rn show ?case
    by (simp add: random_choices_hex del: random_choices.simps)
qed

lemma obfuscate_and_delete_ok:
  assumes q: "\<forall>n. \<not> faults w n" and f: "os_path_isfile w p"
    and nd: "\<forall>j. fs w (os_path_join (os_path_dirname p) (draw_name (rng w) j)) \<noteq> Some Dir"
    and s: "\<forall>s i v l. cb = Some s \<longrightarrow> s i v l = None"
  shows "\<exists>w'. obfuscate_and_delete p cb w = (Inr True, w')"
proof -
  from rename_loop_ok [OF q f nd, of 3] obtain final w1
    where rl: "rename_loop 3 (os_path_dirname p) p w = (Inr final, w1)"
      and f1: "os_path_isfile w1 final" and q1: "\<forall>n. \<not> faults w1 n" by blast
  from os_remove_ok [OF f1] q1 obtain w2 where rm: "os_remove final w1 = (Inr (), w2)" by blast
  from final_progress_ok [OF s, of w2] obtain w3 where fp: "final_progress cb w2 = (Inr (), w3)"
    by blast
  from rl rm fp have "obfuscate_and_delete p cb w = (Inr True, w3)"
    by (simp add: obfuscate_and_delete_def and_then_def)
  then show ?thesis by blast
qed

lemma PATTERNS_get_pos: "0 < PATTERNS_get m 3"
  by (simp add: PATTERNS_get_def PATTERNS_def)

lemma get_file_size_ok:
  "os_path_isfile w p \<Longrightarrow> \<not> faults w (clock w) \<Longrightarrow> \<exists>S w'. get_file_size p w = (Inr S, w')"
  by (auto simp: get_file_size_def attempt_eq isfile_cases)

text \<open>A run on which no operation fails for an external reason, no directory stands
  where a new name is wanted and the progress sink returns normally, succeeds.\<close>

lemma shred_file_ok:
  assumes cs: "0 < cs" and q: "\<forall>n. \<not> faults w n" and f: "os_path_isfile w p"
    and nd: "\<forall>j. fs w (os_path_join (os_path_dirname p) (draw_name (rng w) j)) \<noteq> Some Dir"
    and s: "\<forall>s i v l. cb = Some s \<longrightarrow> s i v l = None"
  shows "\<exists>w'. shred_file w p m cb cs = Some (Returned True, w')"
proof -
  from get_file_size_ok [OF f] q obtain S w1 where g: "get_file_size p w = (Inr S, w1)" by blast
  from get_file_size_Inr [OF g] q f have q1: "\<forall>n. \<not> faults w1 n" and f1: "os_path_isfile w1 p"
    and fs1: "fs w1 = fs w" and r1: "rng w1 = rng w"
    using isfile_fs_cong [of w1 w p] by simp_all
  have "(0::int) \<le> 0" "0 + int (nat (PATTERNS_get m 3)) \<le> PATTERNS_get m 3"
    using PATTERNS_get_pos [of m] by simp_all
  from pass_loop_ok [OF cs s this q1 f1] obtain w2
    where pl: "pass_loop p cb cs S (PATTERNS_get m 3) 0 (nat (PATTERNS_get m 3)) w1 = Some (Inr (), w2)"
    by blast
  from pass_loop_phase [OF pl] q1 f1 have q2: "\<forall>n. \<not> faults w2 n" and f2: "os_path_isfile w2 p"
    and fr: "\<forall>x. x \<noteq> p \<longrightarrow> fs w2 x = fs w1 x" and r2: "rng w2 = rng w1" by simp_all
  have nd2: "\<forall>j. fs w2 (os_path_join (os_path_dirname p) (draw_name (rng w2) j)) \<noteq> Some Dir"
  proof
    fix j
    let ?t = "os_path_join (os_path_dirname p) (draw_name (rng w) j)"
    have "fs w2 ?t \<noteq> Some Dir"
    proof (cases "?t = p")
      case True
      with f2 show ?thesis by (auto simp: isfile_cases)
    next
      case False
      with fr fs1 nd show ?thesis by simp
    qed
    with r1 r2 show "fs w2 (os_path_join (os_path_dirname p) (draw_name (rng w2) j)) \<noteq> Some Dir"
      by simp
  qed
  from obfuscate_and_delete_ok [OF q2 f2 nd2 s] obtain w3
    where ob: "obfuscate_and_delete p cb w2 = (Inr True, w3)" by blast
  from f g pl ob have "shred_file w p m cb cs = Some (Returned True, w3)"
    by (simp add: shred_file_def shred_body_def)
  then show ?thesis by blast
qed

subsection \<open>The example worlds\<close>

lemma os_path_join_name:
  "CHR ''/'' \<notin> set n \<Longrightarrow> d \<noteq> [] \<Longrightarrow> last d \<noteq> CHR ''/'' \<Longrightarrow> os_path_join d n = d @ ''/'' @ n"
  by (cases n) (auto simp: os_path_join_def)

lemma example_world_clean:
  "\<forall>n. \<not> faults example_world n"
  "os_path_isfile example_world ''/d/f''"
  "os_path_isfile example_world ''/d/empty''"
  "os_path_dirname ''/d/f'' = ''/d''"
  "os_path_dirname ''/d/empty'' = ''/d''"
  "\<forall>j. fs example_world (os_path_join ''/d'' (draw_name (rng example_world) j)) \<noteq> Some Dir"
  "\<forall>s i v l. Some quiet_sink = Some s \<longrightarrow> s i v l = None"
proof -
  show "\<forall>n. \<not> faults example_world n" by (simp add: example_world_def)
  show "os_path_isfile example_world ''/d/f''" by (simp add: example_world_def os_path_isfile_def)
  show "os_path_isfile example_world ''/d/empty''" by (simp add: example_world_def os_path_isfile_def)
  show "os_path_dirname ''/d/f'' = ''/d''" by code_simp
  show "os_path_dirname ''/d/empty'' = ''/d''" by code_simp
  show "\<forall>j. fs example_world (os_path_join ''/d'' (draw_name (rng example_world) j)) \<noteq> Some Dir"
    by (simp add: os_path_join_name [OF draw_name_no_sep] example_world_def)
  show "\<forall>s i v l. Some quiet_sink = Some s \<longrightarrow> s i v l = None" by (simp add: quiet_sink_def)
qed

lemma collision_world_clean:
  "\<forall>n. \<not> faults collision_world n"
  "os_path_isfile collision_world ''/d/00000000000000000000000000000000''"
  "os_path_dirname ''/d/00000000000000000000000000000000'' = ''/d''"
  "\<forall>j. fs collision_world (os_path_join ''/d'' (draw_name (rng collision_world) j)) \<noteq> Some Dir"
  "draw_name (rng collision_world) j = ''00000000000000000000000000000000''"
proof -
  show "\<forall>n. \<not> faults collision_world n" by (simp add: collision_world_def)
  show "os_path_isfile collision_world ''/d/00000000000000000000000000000000''"
    by (simp add: collision_world_def os_path_isfile_def)
  show "os_path_dirname ''/d/00000000000000000000000000000000'' = ''/d''" by code_simp
  show "\<forall>j. fs collision_world (os_path_join ''/d'' (draw_name (rng collision_world) j)) \<noteq> Some Dir"
    by (simp add: os_path_join_name [OF draw_name_no_sep] collision_world_def)
  have "draw_name (\<lambda>n. 0) j = ''00000000000000000000000000000000''"
    unfolding draw_name_def by (simp add: upt_rec)
  then show "draw_name (rng collision_world) j = ''00000000000000000000000000000000''"
    by (simp add: collision_world_def)
qed

lemma successful_run_shape:
  assumes run: "shred_file w filepath method progress_callback chunk_size = Some (Returned True, w')"
  shows "\<exists>pre k n1 n2 n3.
     n1 = draw_name (rng w) k \<and> n2 = draw_name (rng w) (k + 32) \<and> n3 = draw_name (rng w) (k + 64) \<and>
     events_since w w' =
       pre @
       [Sys (Rename filepath (os_path_join (os_path_dirname filepath) n1)) True,
        Sys (Rename (os_path_join (os_path_dirname filepath) n1)
                    (os_path_join (os_path_dirname filepath) n2)) True,
        Sys (Rename (os_path_join (os_path_dirname filepath) n2)
                    (os_path_join (os_path_dirname filepath) n3)) True,
        Sys (Remove (os_path_join (os_path_dirname filepath) n3)) True] @
       (case progress_callback of None \<Rightarrow> [] | Some s \<Rightarrow> [Progress (Finite 100) ''Fertig!'']) \<and>
     (\<forall>x\<in>set pre. \<not> obfuscation x) \<and>
     (\<forall>n\<in>{n1, n2, n3}.
        length n = 32 \<and> set n \<subseteq> set ''0123456789abcdef'' \<and>
        os_path_dirname (os_path_join (os_path_dirname filepath) n) = os_path_dirname filepath) \<and>
     fs w' (os_path_join (os_path_dirname filepath) n3) = None"
proof -
  let ?d = "os_path_dirname filepath"
  define r where "r = (Inr True :: exn + bool)"
  from shred_file_True [OF run]
  have body: "shred_body w filepath method progress_callback chunk_size = Some (r, w')"
    and r: "r = Inr True" by (simp_all add: r_def)
  from body show ?thesis
  proof (cases rule: shred_body_cases)
    case notfile
    with r show ?thesis by simp
  next
    case (stat e)
    with r show ?thesis by simp
  next
    case (passes S w1 e)
    with r show ?thesis by simp
  next
    case (obf S w1 w2)
    note g = get_file_size_Inr [OF obf(2)]
    from pass_loop_phase [OF obf(3)] obtain evs where l: "log w2 = log w1 @ evs"
      and ph: "pass_phase filepath progress_callback (Inr ()) evs" and rg: "rng w2 = rng w1" by blast
    from ph have nob: "\<forall>x\<in>set evs. \<not> obfuscation x" by (simp add: pass_phase_def)
    define k where "k = drawn w2"
    define n1 where "n1 = draw_name (rng w) k"
    define n2 where "n2 = draw_name (rng w) (k + 32)"
    define n3 where "n3 = draw_name (rng w) (k + 64)"
    from rg g have rw: "rng w2 = rng w" by simp
    have ts: "targets ?d (rng w2) (drawn w2) 3 = [os_path_join ?d n1, os_path_join ?d n2, os_path_join ?d n3]"
      by (simp add: targets_3 rw n1_def n2_def n3_def k_def)
    from obfuscate_and_delete_Inr [OF obf(4) [unfolded r]] ts
    have l2: "log w' = log w2 @
       [Sys (Rename filepath (os_path_join ?d n1)) True,
        Sys (Rename (os_path_join ?d n1) (os_path_join ?d n2)) True,
        Sys (Rename (os_path_join ?d n2) (os_path_join ?d n3)) True,
        Sys (Remove (os_path_join ?d n3)) True] @
       (case progress_callback of None \<Rightarrow> [] | Some s \<Rightarrow> [Progress (Finite 100) ''Fertig!''])"
      and gone: "fs w' (os_path_join ?d n3) = None"
      by simp_all
    from g l l2 have "log w' = log w @ ((Sys (Stat filepath) True # evs) @
       [Sys (Rename filepath (os_path_join ?d n1)) True,
        Sys (Rename (os_path_join ?d n1) (os_path_join ?d n2)) True,
        Sys (Rename (os_path_join ?d n2) (os_path_join ?d n3)) True,
        Sys (Remove (os_path_join ?d n3)) True] @
       (case progress_callback of None \<Rightarrow> [] | Some s \<Rightarrow> [Progress (Finite 100) ''Fertig!'']))"
      by simp
    from events_since_append [OF this]
    have ev: "events_since w w' = (Sys (Stat filepath) True # evs) @
       [Sys (Rename filepath (os_path_join ?d n1)) True,
        Sys (Rename (os_path_join ?d n1) (os_path_join ?d n2)) True,
        Sys (Rename (os_path_join ?d n2) (os_path_join ?d n3)) True,
        Sys (Remove (os_path_join ?d n3)) True] @
       (case progress_callback of None \<Rightarrow> [] | Some s \<Rightarrow> [Progress (Finite 100) ''Fertig!''])" .
    from nob have pre: "\<forall>x\<in>set (Sys (Stat filepath) True # evs). \<not> obfuscation x" by simp
    have names: "\<forall>n\<in>{n1, n2, n3}.
        length n = 32 \<and> set n \<subseteq> set ''0123456789abcdef'' \<and>
        os_path_dirname (os_path_join ?d n) = ?d"
      using draw_name_length draw_name_hex dirname_join [OF draw_name_no_sep]
      unfolding n1_def n2_def n3_def by blast
    from n1_def n2_def n3_def ev pre names gone show ?thesis by blast
  qed
qed

subsection \<open>C5: three renames, then removal\<close>

text \<open>
  Claim C5, as the code has it. On every successful run the passes are followed by
  exactly three successful renames, each from the current path to a name in the
  directory of the original path, then by the removal of the file under its last name,
  which is gone afterwards. The three names are thirty-two lowercase hexadecimal
  characters each, read from three successive blocks of thirty-two outputs of the
  pseudo-random generator. Nothing compares a name with the original file name: in the
  world \<open>collision_world\<close> the first rename goes from the original path to itself.
\<close>

theorem successful_run_renames_three_times:
  assumes run: "shred_file w filepath method progress_callback chunk_size = Some (Returned True, w')"
  shows "\<exists>pre k n1 n2 n3.
     n1 = draw_name (rng w) k \<and> n2 = draw_name (rng w) (k + 32) \<and> n3 = draw_name (rng w) (k + 64) \<and>
     events_since w w' =
       pre @
       [Sys (Rename filepath (os_path_join (os_path_dirname filepath) n1)) True,
        Sys (Rename (os_path_join (os_path_dirname filepath) n1)
                    (os_path_join (os_path_dirname filepath) n2)) True,
        Sys (Rename (os_path_join (os_path_dirname filepath) n2)
                    (os_path_join (os_path_dirname filepath) n3)) True,
        Sys (Remove (os_path_join (os_path_dirname filepath) n3)) True] @
       (case progress_callback of None \<Rightarrow> [] | Some s \<Rightarrow> [Progress (Finite 100) ''Fertig!'']) \<and>
     (\<forall>x\<in>set pre. \<not> obfuscation x) \<and>
     (\<forall>n\<in>{n1, n2, n3}.
        length n = 32 \<and> set n \<subseteq> set ''0123456789abcdef'' \<and>
        os_path_dirname (os_path_join (os_path_dirname filepath) n) = os_path_dirname filepath) \<and>
     fs w' (os_path_join (os_path_dirname filepath) n3) = None"
  using successful_run_shape [OF run] .

theorem successful_run_renames_three_times_witness:
  "\<exists>w'. shred_file example_world ''/d/f'' ''quick'' (Some quiet_sink) 2 = Some (Returned True, w') \<and>
     (\<exists>pre k n1 n2 n3.
       n1 = draw_name (rng example_world) k \<and> n2 = draw_name (rng example_world) (k + 32) \<and>
       n3 = draw_name (rng example_world) (k + 64) \<and>
       events_since example_world w' =
         pre @
         [Sys (Rename ''/d/f'' (os_path_join ''/d'' n1)) True,
          Sys (Rename (os_path_join ''/d'' n1) (os_path_join ''/d'' n2)) True,
          Sys (Rename (os_path_join ''/d'' n2) (os_path_join ''/d'' n3)) True,
          Sys (Remove (os_path_join ''/d'' n3)) True, Progress (Finite 100) ''Fertig!''] \<and>
       fs w' (os_path_join ''/d'' n3) = None)"
proof -
  have nd: "\<forall>j. fs example_world (os_path_join (os_path_dirname ''/d/f'')
                 (draw_name (rng example_world) j)) \<noteq> Some Dir"
    unfolding example_world_clean(4) by (rule example_world_clean(6))
  have "(0::int) < 2" by simp
  from shred_file_ok [OF this example_world_clean(1,2) nd example_world_clean(7), of "''quick''"]
  obtain w' where run: "shred_file example_world ''/d/f'' ''quick'' (Some quiet_sink) 2
      = Some (Returned True, w')" by auto
  from successful_run_renames_three_times [OF run]
  obtain pre k n1 n2 n3 where
    "n1 = draw_name (rng example_world) k \<and> n2 = draw_name (rng example_world) (k + 32) \<and>
       n3 = draw_name (rng example_world) (k + 64) \<and>
       events_since example_world w' =
         pre @
         [Sys (Rename ''/d/f'' (os_path_join ''/d'' n1)) True,
          Sys (Rename (os_path_join ''/d'' n1) (os_path_join ''/d'' n2)) True,
          Sys (Rename (os_path_join ''/d'' n2) (os_path_join ''/d'' n3)) True,
          Sys (Remove (os_path_join ''/d'' n3)) True, Progress (Finite 100) ''Fertig!''] \<and>
       fs w' (os_path_join ''/d'' n3) = None"
    unfolding example_world_clean(4) by auto
  with run show ?thesis by blast
qed

theorem rename_target_is_original_name_counterexample:
  "shred_file collision_world ''/d/00000000000000000000000000000000'' ''quick'' None 1048576 \<noteq> None \<and>
   fst (the (shred_file collision_world ''/d/00000000000000000000000000000000'' ''quick'' None 1048576))
     = Returned True \<and>
   Sys (Rename ''/d/00000000000000000000000000000000'' ''/d/00000000000000000000000000000000'') True
     \<in> set (events_since collision_world
          (snd (the (shred_file collision_world ''/d/00000000000000000000000000000000'' ''quick''
                      None 1048576)))) \<and>
   os_path_basename ''/d/00000000000000000000000000000000'' = ''00000000000000000000000000000000''"
proof -
  let ?z = "''/d/00000000000000000000000000000000''"
  have nd: "\<forall>j. fs collision_world (os_path_join (os_path_dirname ?z)
                 (draw_name (rng collision_world) j)) \<noteq> Some Dir"
    unfolding collision_world_clean(3) by (rule collision_world_clean(4))
  have "(0::int) < 1048576" by simp
  from shred_file_ok [OF this collision_world_clean(1,2) nd, of None "''quick''"]
  obtain w' where run: "shred_file collision_world ?z ''quick'' None 1048576 = Some (Returned True, w')"
    by auto
  have j: "os_path_join ''/d'' ''00000000000000000000000000000000'' = ?z" by code_simp
  from successful_run_shape [OF run]
  have "Sys (Rename ?z ?z) True \<in> set (events_since collision_world w')"
    by (auto simp: collision_world_clean(3,5) j)
  moreover have "os_path_basename ?z = ''00000000000000000000000000000000''" by code_simp
  ultimately show ?thesis using run by simp
qed

subsection \<open>Files of no bytes\<close>

lemma progress_values_append:
  "progress_values (xs @ ys) = progress_values xs @ progress_values ys"
  by (induction xs rule: progress_values.induct) auto

lemma progress_values_rename_events: "progress_values (rename_events cur ts) = []"
  by (induction ts arbitrary: cur) auto

lemma chunk_loop_empty:
  "\<not> bw < S \<Longrightarrow> chunk_loop cb cs S pn ps h bw w = Some (Inr bw, w)"
  by (subst chunk_loop.simps) simp

lemma one_pass_empty:
  assumes q: "\<forall>n. \<not> faults w n" and f: "os_path_isfile w p"
  shows "\<exists>w'. one_pass p cb cs 0 ps pn w = Some (Inr (), w') \<and>
           log w' = log w @ [Sys (Open p) True, Sys (Close p) True] \<and>
           (\<forall>n. \<not> faults w' n) \<and> fs w' = fs w \<and> rng w' = rng w \<and> drawn w' = drawn w"
proof -
  let ?h = "\<lparr>hpath = p, pos = 0\<rparr>"
  from os_open_ok [OF f] q obtain w1 where op: "os_open p w = (Inr ?h, w1)" by blast
  note a = os_open_Inr [OF op]
  have lp: "chunk_loop cb cs 0 pn ps ?h 0 w1 = Some (Inr 0, w1)" by (rule chunk_loop_empty) simp
  from a q have "\<not> faults w1 (clock w1)" by simp
  from f_close_ok [OF this, of ?h] obtain w2 where cl: "f_close ?h w1 = (Inr (), w2)" by blast
  note b = f_close_log [OF cl]
  from op lp cl have "one_pass p cb cs 0 ps pn w = Some (Inr (), w2)" by (simp add: one_pass_def)
  with a b q show ?thesis by simp
qed

lemma passes_started_rename_events: "passes_started (rename_events cur ts) = 0"
  by (induction ts arbitrary: cur) auto

lemma zero_byte_run:
  assumes empty: "fs w filepath = Some (File [])"
    and q: "\<forall>n. \<not> faults w n"
    and nd: "\<forall>j. fs w (os_path_join (os_path_dirname filepath) (draw_name (rng w) j)) \<noteq> Some Dir"
    and s: "\<forall>s i v l. progress_callback = Some s \<longrightarrow> s i v l = None"
  shows "\<exists>w'. shred_file w filepath ''secure'' progress_callback chunk_size = Some (Returned True, w') \<and>
     events_since w w' =
       [Sys (Stat filepath) True,
        Sys (Open filepath) True, Sys (Close filepath) True,
        Sys (Open filepath) True, Sys (Close filepath) True,
        Sys (Open filepath) True, Sys (Close filepath) True] @
       rename_events filepath (targets (os_path_dirname filepath) (rng w) (drawn w) 3) @
       [Sys (Remove (last (filepath # targets (os_path_dirname filepath) (rng w) (drawn w) 3))) True] @
       (case progress_callback of None \<Rightarrow> [] | Some s \<Rightarrow> [Progress (Finite 100) ''Fertig!'']) \<and>
     progress_values (events_since w w') = (case progress_callback of None \<Rightarrow> [] | Some s \<Rightarrow> [Finite 100])"
proof -
  let ?p = filepath
  from empty have f: "os_path_isfile w ?p" by (simp add: isfile_cases)
  from get_file_size_ok [OF f] q obtain S w1 where g: "get_file_size ?p w = (Inr S, w1)" by blast
  note a = get_file_size_Inr [OF g]
  from a empty have S: "S = 0" by simp
  from a q f have q1: "\<forall>n. \<not> faults w1 n" and f1: "os_path_isfile w1 ?p"
    using isfile_fs_cong [of w1 w ?p] by simp_all
  from one_pass_empty [OF q1 f1, of progress_callback chunk_size 3 0] obtain w2
    where p1: "one_pass ?p progress_callback chunk_size 0 3 0 w1 = Some (Inr (), w2)"
      and l2: "log w2 = log w1 @ [Sys (Open ?p) True, Sys (Close ?p) True]"
      and q2: "\<forall>n. \<not> faults w2 n" and e2: "fs w2 = fs w1" "rng w2 = rng w1" "drawn w2 = drawn w1"
    by blast
  from f1 e2 have f2: "os_path_isfile w2 ?p" using isfile_fs_cong [of w2 w1 ?p] by simp
  from one_pass_empty [OF q2 f2, of progress_callback chunk_size 3 1] obtain w3
    where p2: "one_pass ?p progress_callback chunk_size 0 3 1 w2 = Some (Inr (), w3)"
      and l3: "log w3 = log w2 @ [Sys (Open ?p) True, Sys (Close ?p) True]"
      and q3: "\<forall>n. \<not> faults w3 n" and e3: "fs w3 = fs w2" "rng w3 = rng w2" "drawn w3 = drawn w2"
    by blast
  from f2 e3 have f3: "os_path_isfile w3 ?p" using isfile_fs_cong [of w3 w2 ?p] by simp
  from one_pass_empty [OF q3 f3, of progress_callback chunk_size 3 2] obtain w4
    where p3: "one_pass ?p progress_callback chunk_size 0 3 2 w3 = Some (Inr (), w4)"
      and l4: "log w4 = log w3 @ [Sys (Open ?p) True, Sys (Close ?p) True]"
      and q4: "\<forall>n. \<not> faults w4 n" and e4: "fs w4 = fs w3" "rng w4 = rng w3" "drawn w4 = drawn w3"
    by blast
  from f3 e4 have f4: "os_path_isfile w4 ?p" using isfile_fs_cong [of w4 w3 ?p] by simp
  have pl: "pass_loop ?p progress_callback chunk_size S (PATTERNS_get ''secure'' 3) 0
              (nat (PATTERNS_get ''secure'' 3)) w1 = Some (Inr (), w4)"
    using p1 p2 p3 by (simp add: S PATTERNS_get_def PATTERNS_def numeral_3_eq_3)
  from a e2 e3 e4 have same: "fs w4 = fs w" "rng w4 = rng w" "drawn w4 = drawn w" by simp_all
  from nd same have nd4: "\<forall>j. fs w4 (os_path_join (os_path_dirname ?p) (draw_name (rng w4) j)) \<noteq> Some Dir"
    by simp
  from obfuscate_and_delete_ok [OF q4 f4 nd4 s] obtain w5
    where ob: "obfuscate_and_delete ?p progress_callback w4 = (Inr True, w5)" by blast
  from f g pl ob have run: "shred_file w ?p ''secure'' progress_callback chunk_size = Some (Returned True, w5)"
    by (simp add: shred_file_def shred_body_def)
  from obfuscate_and_delete_Inr [OF ob] a l2 l3 l4 same
  have "log w5 = log w @
       ([Sys (Stat filepath) True,
        Sys (Open filepath) True, Sys (Close filepath) True,
        Sys (Open filepath) True, Sys (Close filepath) True,
        Sys (Open filepath) True, Sys (Close filepath) True] @
       rename_events filepath (targets (os_path_dirname filepath) (rng w) (drawn w) 3) @
       [Sys (Remove (last (filepath # targets (os_path_dirname filepath) (rng w) (drawn w) 3))) True] @
       (case progress_callback of None \<Rightarrow> [] | Some s \<Rightarrow> [Progress (Finite 100) ''Fertig!'']))"
    by simp
  from events_since_append [OF this]
  have ev: "events_since w w5 =
       [Sys (Stat filepath) True,
        Sys (Open filepath) True, Sys (Close filepath) True,
        Sys (Open filepath) True, Sys (Close filepath) True,
        Sys (Open filepath) True, Sys (Close filepath) True] @
       rename_events filepath (targets (os_path_dirname filepath) (rng w) (drawn w) 3) @
       [Sys (Remove (last (filepath # targets (os_path_dirname filepath) (rng w) (drawn w) 3))) True] @
       (case progress_callback of None \<Rightarrow> [] | Some s \<Rightarrow> [Progress (Finite 100) ''Fertig!''])" .
  have "progress_values (events_since w w5) = (case progress_callback of None \<Rightarrow> [] | Some s \<Rightarrow> [Finite 100])"
    unfolding ev by (cases progress_callback) (simp_all add: progress_values_append progress_values_rename_events)
  with run ev show ?thesis by blast
qed

subsection \<open>C8: a file of no bytes\<close>

text \<open>
  Claim C8, as the code has it. Shredding a file of zero bytes with method
  \<open>secure\<close>, when no operation fails and the sink returns normally, succeeds: the log
  is the size query, three passes that each open and close the file without writing
  and without a progress update (the loop over the chunks is not entered), the three
  renames and the removal, and the final update of 100, which is the only progress
  update of the run. The chunk size plays no part.
\<close>

theorem zero_byte_file_secure:
  assumes empty: "fs w filepath = Some (File [])"
    and q: "\<forall>n. \<not> faults w n"
    and nd: "\<forall>j. fs w (os_path_join (os_path_dirname filepath) (draw_name (rng w) j)) \<noteq> Some Dir"
    and s: "\<forall>s i v l. progress_callback = Some s \<longrightarrow> s i v l = None"
  shows "\<exists>w'. shred_file w filepath ''secure'' progress_callback chunk_size = Some (Returned True, w') \<and>
     events_since w w' =
       [Sys (Stat filepath) True,
        Sys (Open filepath) True, Sys (Close filepath) True,
        Sys (Open filepath) True, Sys (Close filepath) True,
        Sys (Open filepath) True, Sys (Close filepath) True] @
       rename_events filepath (targets (os_path_dirname filepath) (rng w) (drawn w) 3) @
       [Sys (Remove (last (filepath # targets (os_path_dirname filepath) (rng w) (drawn w) 3))) True] @
       (case progress_callback of None \<Rightarrow> [] | Some s \<Rightarrow> [Progress (Finite 100) ''Fertig!'']) \<and>
     progress_values (events_since w w') = (case progress_callback of None \<Rightarrow> [] | Some s \<Rightarrow> [Finite 100])"
  using zero_byte_run [OF empty q nd s] .

theorem zero_byte_file_secure_witness:
  "fs example_world ''/d/empty'' = Some (File []) \<and>
   (\<exists>w'. shred_file example_world ''/d/empty'' ''secure'' (Some quiet_sink) 1048576
            = Some (Returned True, w') \<and>
         events_since example_world w' =
           [Sys (Stat ''/d/empty'') True,
            Sys (Open ''/d/empty'') True, Sys (Close ''/d/empty'') True,
            Sys (Open ''/d/empty'') True, Sys (Close ''/d/empty'') True,
            Sys (Open ''/d/empty'') True, Sys (Close ''/d/empty'') True] @
           rename_events ''/d/empty'' (targets ''/d'' (rng example_world) 0 3) @
           [Sys (Remove (last (''/d/empty'' # targets ''/d'' (rng example_world) 0 3))) True,
            Progress (Finite 100) ''Fertig!''] \<and>
         progress_values (events_since example_world w') = [Finite 100])"
proof -
  have e: "fs example_world ''/d/empty'' = Some (File [])" by (simp add: example_world_def)
  have nd: "\<forall>j. fs example_world (os_path_join (os_path_dirname ''/d/empty'')
                 (draw_name (rng example_world) j)) \<noteq> Some Dir"
    unfolding example_world_clean(5) by (rule example_world_clean(6))
  have d: "drawn example_world = 0" by (simp add: example_world_def)
  from zero_byte_file_secure [OF e example_world_clean(1) nd example_world_clean(7), of 1048576] e
  show ?thesis unfolding example_world_clean(5) d by simp
qed

theorem zero_byte_progress_counterexample:
  "shred_file example_world ''/d/empty'' ''secure'' (Some quiet_sink) 1048576 \<noteq> None \<and>
   fst (the (shred_file example_world ''/d/empty'' ''secure'' (Some quiet_sink) 1048576))
     = Returned True \<and>
   passes_started (events_since example_world
      (snd (the (shred_file example_world ''/d/empty'' ''secure'' (Some quiet_sink) 1048576)))) = 3 \<and>
   progress_values (events_since example_world
      (snd (the (shred_file example_world ''/d/empty'' ''secure'' (Some quiet_sink) 1048576)))) = [Finite 100]"
proof -
  have e: "fs example_world ''/d/empty'' = Some (File [])" by (simp add: example_world_def)
  have nd: "\<forall>j. fs example_world (os_path_join (os_path_dirname ''/d/empty'')
                 (draw_name (rng example_world) j)) \<noteq> Some Dir"
    unfolding example_world_clean(5) by (rule example_world_clean(6))
  from zero_byte_run [OF e example_world_clean(1) nd example_world_clean(7), of 1048576]
  obtain w' where run: "shred_file example_world ''/d/empty'' ''secure'' (Some quiet_sink) 1048576
            = Some (Returned True, w')"
    and ev: "events_since example_world w' =
       [Sys (Stat ''/d/empty'') True,
        Sys (Open ''/d/empty'') True, Sys (Close ''/d/empty'') True,
        Sys (Open ''/d/empty'') True, Sys (Close ''/d/empty'') True,
        Sys (Open ''/d/empty'') True, Sys (Close ''/d/empty'') True] @
       rename_events ''/d/empty'' (targets (os_path_dirname ''/d/empty'') (rng example_world) (drawn example_world) 3) @
       [Sys (Remove (last (''/d/empty'' # targets (os_path_dirname ''/d/empty'') (rng example_world) (drawn example_world) 3))) True] @
       (case Some quiet_sink of None \<Rightarrow> [] | Some s \<Rightarrow> [Progress (Finite 100) ''Fertig!''])"
    and pv: "progress_values (events_since example_world w') = (case Some quiet_sink of None \<Rightarrow> [] | Some s \<Rightarrow> [Finite 100])"
    by blast
  have "passes_started (events_since example_world w') = 3"
    unfolding ev by (simp add: passes_started_append passes_started_rename_events)
  with run pv show ?thesis by simp
qed

subsection \<open>Returning, and not returning\<close>







subsection \<open>C3: methods and pass counts\<close>

text \<open>A run that returns \<open>True\<close> has opened the file once for each pass, and the number
  of passes is what \<open>PATTERNS.get(method, 3)\<close> gave.\<close>

lemma successful_run_passes:
  assumes "shred_file w p m cb cs = Some (Returned True, w')"
  shows "passes_started (events_since w w') = nat (PATTERNS_get m 3)"
proof -
  from shred_file_True [OF assms] have "shred_body w p m cb cs = Some (Inr True, w')" .
  then show ?thesis
  proof (cases rule: shred_body_cases)
    case notfile
    then show ?thesis by simp
  next
    case (stat e)
    then show ?thesis by simp
  next
    case (passes S w1 e)
    then show ?thesis by simp
  next
    case (obf S w1 w2)
    note g = get_file_size_Inr [OF obf(2)]
    from pass_loop_phase [OF obf(3)] obtain evs where l: "log w2 = log w1 @ evs"
      and n: "passes_started evs = nat (PATTERNS_get m 3)" by auto
    let ?ts = "targets (os_path_dirname p) (rng w2) (drawn w2) 3"
    let ?fin = "case cb of None \<Rightarrow> [] | Some s \<Rightarrow> [Progress (Finite 100) ''Fertig!'']"
    from obfuscate_and_delete_Inr [OF obf(4)]
    have l2: "log w' = log w2 @ rename_events p ?ts @ [Sys (Remove (last (p # ?ts))) True] @ ?fin"
      by simp
    from g l l2
    have "log w' = log w @
        (Sys (Stat p) True # evs @ rename_events p ?ts @ [Sys (Remove (last (p # ?ts))) True] @ ?fin)"
      by simp
    from events_since_append [OF this] n show ?thesis
      by (simp add: passes_started_append passes_started_rename_events split: option.splits)
  qed
qed

text \<open>
  Claim C3. The method resolves to the number of passes by the fixed table: quick 1,
  secure 3, dod 7, gutmann 35, and every other method string resolves to 3. A run that
  returns \<open>True\<close> has executed exactly that number of passes (each pass opens the file
  once), whatever the method string; and the method string makes no run fail: when no
  operation fails, no directory stands where a new name is wanted and the sink returns
  normally, the run returns \<open>True\<close> for every method string.
\<close>

theorem method_resolves_passes:
  "PATTERNS_get ''quick'' 3 = 1 \<and> PATTERNS_get ''secure'' 3 = 3 \<and>
   PATTERNS_get ''dod'' 3 = 7 \<and> PATTERNS_get ''gutmann'' 3 = 35 \<and>
   (method \<notin> {''quick'', ''secure'', ''dod'', ''gutmann''} \<longrightarrow> PATTERNS_get method 3 = 3) \<and>
   (shred_file w filepath method progress_callback chunk_size = Some (Returned True, w') \<longrightarrow>
      passes_started (events_since w w') = nat (PATTERNS_get method 3)) \<and>
   (0 < chunk_size \<and> (\<forall>n. \<not> faults w n) \<and> os_path_isfile w filepath \<and>
    (\<forall>j. fs w (os_path_join (os_path_dirname filepath) (draw_name (rng w) j)) \<noteq> Some Dir) \<and>
    (\<forall>s i v l. progress_callback = Some s \<longrightarrow> s i v l = None) \<longrightarrow>
      (\<exists>w''. shred_file w filepath method progress_callback chunk_size = Some (Returned True, w'')))"
proof -
  have "PATTERNS_get ''quick'' 3 = 1 \<and> PATTERNS_get ''secure'' 3 = 3 \<and>
   PATTERNS_get ''dod'' 3 = 7 \<and> PATTERNS_get ''gutmann'' 3 = 35 \<and>
   (method \<notin> {''quick'', ''secure'', ''dod'', ''gutmann''} \<longrightarrow> PATTERNS_get method 3 = 3)"
    by (simp add: PATTERNS_get_def PATTERNS_def)
  moreover have "shred_file w filepath method progress_callback chunk_size = Some (Returned True, w') \<longrightarrow>
      passes_started (events_since w w') = nat (PATTERNS_get method 3)"
    using successful_run_passes by blast
  moreover have "0 < chunk_size \<and> (\<forall>n. \<not> faults w n) \<and> os_path_isfile w filepath \<and>
    (\<forall>j. fs w (os_path_join (os_path_dirname filepath) (draw_name (rng w) j)) \<noteq> Some Dir) \<and>
    (\<forall>s i v l. progress_callback = Some s \<longrightarrow> s i v l = None) \<longrightarrow>
      (\<exists>w''. shred_file w filepath method progress_callback chunk_size = Some (Returned True, w''))"
    using shred_file_ok [of chunk_size w filepath progress_callback "method"] by blast
  ultimately show ?thesis by blast
qed

theorem method_resolves_passes_witness:
  "''shred'' \<notin> {''quick'', ''secure'', ''dod'', ''gutmann''} \<and> PATTERNS_get ''shred'' 3 = 3 \<and>
   (0::int) < 2 \<and> (\<forall>n. \<not> faults example_world n) \<and> os_path_isfile example_world ''/d/f'' \<and>
   (\<exists>w'. shred_file example_world ''/d/f'' ''shred'' None 2 = Some (Returned True, w') \<and>
         passes_started (events_since example_world w') = 3)"
proof -
  have nd: "\<forall>j. fs example_world (os_path_join (os_path_dirname ''/d/f'')
                 (draw_name (rng example_world) j)) \<noteq> Some Dir"
    unfolding example_world_clean(4) by (rule example_world_clean(6))
  have m: "''shred'' \<notin> {''quick'', ''secure'', ''dod'', ''gutmann''}" by simp
  have s: "\<forall>s i v l. (None :: sink option) = Some s \<longrightarrow> s i v l = None" by simp
  note t = method_resolves_passes [of "''shred''" example_world "''/d/f''" None 2]
  from t [of example_world] example_world_clean(1,2) nd s obtain w'
    where run: "shred_file example_world ''/d/f'' ''shred'' None 2 = Some (Returned True, w')"
    by auto
  from t [of w'] m run
  have "passes_started (events_since example_world w') = 3" and "PATTERNS_get ''shred'' 3 = 3"
    by simp_all
  with run m example_world_clean(1,2) show ?thesis by auto
qed

subsection \<open>C7: the progress update after a chunk\<close>

text \<open>
  Claim C7. When a progress sink is given and a chunk of pass \<open>pass_num\<close> of
  \<open>passes\<close> has been written, flushed and synced, the sink is invoked exactly once,
  right after the sync, with the percentage
  \<open>((pass_num * file_size + bytes_written) / (passes * file_size)) * 100\<close> as Python
  computes it: the division of the two integers rounded to a double, and the product of
  that double and 100 rounded again. Here \<open>bytes_written\<close> already counts the chunk. The
  label is \<open>Durchgang i/passes\<close>, where \<open>i = pass_num + 1\<close> names the current pass
  (\<open>Durchgang\<close> is German for pass). The step logs these four events and no other. The
  sink is left out only when the division raises, which it does not inside the loop of
  \<open>shred_file\<close>, where the pass index is below the number of passes and fewer bytes are
  written than the file has.
\<close>

theorem progress_after_each_chunk:
  assumes st: "chunk_step (Some s) chunk_size file_size pass_num passes f bytes_written w = (r, w')"
    and synced: "Sys (Fsync (hpath f)) True \<in> set (events_since w w')"
  shows "events_since w w' =
     [Sys (Write (hpath f) (pos f)
             (fst (generate_pattern (min chunk_size (file_size - bytes_written)) pass_num w))) True,
      Sys (Flush (hpath f)) True,
      Sys (Fsync (hpath f)) True] @
     (case true_divide
             (pass_num * file_size + (bytes_written + min chunk_size (file_size - bytes_written)))
             (passes * file_size) of
        Inl e \<Rightarrow> []
      | Inr ratio \<Rightarrow>
          [Progress (float_times ratio 100)
             (''Durchgang '' @ str_int (pass_num + 1) @ ''/'' @ str_int passes)]) \<and>
     (0 \<le> pass_num \<and> pass_num < passes \<and> 0 \<le> bytes_written \<and> bytes_written < file_size \<and>
      0 < chunk_size \<longrightarrow>
        (\<exists>ratio. true_divide
             (pass_num * file_size + (bytes_written + min chunk_size (file_size - bytes_written)))
             (passes * file_size) = Inr ratio))"
proof -
  let ?bw = "bytes_written + min chunk_size (file_size - bytes_written)"
  let ?W = "[Sys (Write (hpath f) (pos f)
             (fst (generate_pattern (min chunk_size (file_size - bytes_written)) pass_num w))) True,
      Sys (Flush (hpath f)) True,
      Sys (Fsync (hpath f)) True]"
  let ?P = "case true_divide (pass_num * file_size + ?bw) (passes * file_size) of
        Inl e \<Rightarrow> []
      | Inr ratio \<Rightarrow>
          [Progress (float_times ratio 100)
             (''Durchgang '' @ str_int (pass_num + 1) @ ''/'' @ str_int passes)]"
  have "log w' = log w @ ?W @ ?P"
  proof (cases r)
    case (Inr hb)
    obtain h' bw' where hb: "hb = (h', bw')" by (cases hb) auto
    note a = chunk_step_Inr(1,4,10) [OF st [unfolded Inr hb]]
    from a(3) obtain v where v: "percent pass_num file_size bw' passes = Inr v" by auto
    with a(1,2) show ?thesis
      by (auto simp: percent_def status_label_def split: sum.splits)
  next
    case (Inl e)
    from chunk_step_Inl(1) [OF st [unfolded Inl]] obtain evs where l: "log w' = log w @ evs"
      and sh: "(e = OSError \<and> evs = [Sys (Write (hpath f) (pos f)
             (fst (generate_pattern (min chunk_size (file_size - bytes_written)) pass_num w))) False]) \<or>
         (e = OSError \<and> evs = [Sys (Write (hpath f) (pos f)
             (fst (generate_pattern (min chunk_size (file_size - bytes_written)) pass_num w))) True,
             Sys (Flush (hpath f)) False]) \<or>
         (e = OSError \<and> evs = [Sys (Write (hpath f) (pos f)
             (fst (generate_pattern (min chunk_size (file_size - bytes_written)) pass_num w))) True,
             Sys (Flush (hpath f)) True, Sys (Fsync (hpath f)) False]) \<or>
         (percent pass_num file_size ?bw passes = Inl e \<and> evs = ?W) \<or>
         (\<exists>v. percent pass_num file_size ?bw passes = Inr v \<and>
            evs = ?W @ [Progress v (status_label pass_num passes)])"
      unfolding Let_def by auto
    from events_since_append [OF l] synced have "Sys (Fsync (hpath f)) True \<in> set evs" by simp
    with sh have "(percent pass_num file_size ?bw passes = Inl e \<and> evs = ?W) \<or>
         (\<exists>v. percent pass_num file_size ?bw passes = Inr v \<and>
            evs = ?W @ [Progress v (status_label pass_num passes)])" by auto
    then have "evs = ?W @ ?P"
      by (auto simp: percent_def status_label_def split: sum.splits)
    with l show ?thesis by simp
  qed
  from events_since_append [OF this] have "events_since w w' = ?W @ ?P" .
  moreover have "\<exists>ratio. true_divide (pass_num * file_size + ?bw) (passes * file_size) = Inr ratio"
    if h: "0 \<le> pass_num \<and> pass_num < passes \<and> 0 \<le> bytes_written \<and> bytes_written < file_size \<and>
      0 < chunk_size"
  proof -
    from h have "0 < file_size" "0 \<le> pass_num" "pass_num < passes" "0 \<le> ?bw" "?bw \<le> file_size"
      by simp_all
    from percent_value(1) [OF pass_arith [OF this]] show ?thesis
      by (auto simp: percent_def split: sum.splits)
  qed
  ultimately show ?thesis by blast
qed

theorem progress_after_each_chunk_witness:
  "Sys (Fsync (hpath twenty_handle)) True
     \<in> set (events_since twenty_world
              (snd (chunk_step (Some quiet_sink) 11 20 0 1 twenty_handle 0 twenty_world))) \<and>
   events_since twenty_world (snd (chunk_step (Some quiet_sink) 11 20 0 1 twenty_handle 0 twenty_world))
     = [Sys (Write ''/d/g'' 0 [0, 0, 0, 0, 0, 0, 0, 0, 0, 0, 0]) True,
        Sys (Flush ''/d/g'') True, Sys (Fsync ''/d/g'') True,
        Progress (Finite (7740561859543041 / 140737488355328)) ''Durchgang 1/1''] \<and>
   true_divide 11 20 = Inr (2476979795053773 / 4503599627370496) \<and>
   float_times (2476979795053773 / 4503599627370496) 100
     = Finite (7740561859543041 / 140737488355328)"
proof -
  let ?r = "chunk_step (Some quiet_sink) 11 20 0 1 twenty_handle 0 twenty_world"
  have st: "?r = (fst ?r, snd ?r)" by simp
  have sy: "Sys (Fsync (hpath twenty_handle)) True \<in> set (events_since twenty_world (snd ?r))"
    by code_simp
  have d: "true_divide (0 * 20 + (0 + min 11 (20 - 0))) (1 * 20)
             = Inr (2476979795053773 / 4503599627370496)" by code_simp
  have d': "true_divide 11 20 = Inr (2476979795053773 / 4503599627370496)" by code_simp
  have m: "float_times (2476979795053773 / 4503599627370496) 100
             = Finite (7740561859543041 / 140737488355328)" by code_simp
  have v: "fst (generate_pattern (min 11 (20 - 0)) 0 twenty_world) = [0, 0, 0, 0, 0, 0, 0, 0, 0, 0, 0]"
    by code_simp
  have l: "''Durchgang '' @ str_int (0 + 1) @ ''/'' @ str_int 1 = ''Durchgang 1/1''" by code_simp
  have h: "hpath twenty_handle = ''/d/g''" "pos twenty_handle = 0"
    by (simp_all add: twenty_handle_def)
  from progress_after_each_chunk [OF st sy] sy d' m show ?thesis
    unfolding v d l h by simp
qed

subsection \<open>C4: a failing write, and a handler that raises\<close>

text \<open>
  Claim C4. If a write, a flush or a durability sync fails during some pass, the run
  stops, no later pass is executed, nothing is renamed or removed, and \<open>shred_file\<close>
  returns \<open>False\<close>. The code stops as the claim says, but it does not always return:
  the handler prints the path before it returns \<open>False\<close>, and \<open>print\<close> raises when
  standard output cannot encode the path. For the file named \<open>caf\<close> followed by the byte
  \<open>0xE9\<close>, with a standard output in ASCII, the first write of a \<open>dod\<close> run fails,
  the file is closed, and \<open>UnicodeEncodeError\<close> leaves \<open>shred_file\<close> where the claim
  and the docstring (\<open>True if successful, False otherwise\<close>) promise \<open>False\<close>.
\<close>

theorem write_failure_print_raises:
  "map_option fst (shred_file ascii_world accented_path ''dod'' None 1048576)
     = Some (Propagated UnicodeEncodeError) \<and>
   events_since ascii_world (snd (the (shred_file ascii_world accented_path ''dod'' None 1048576)))
     = [Sys (Stat accented_path) True, Sys (Open accented_path) True,
        Sys (Write accented_path 0 [0, 0, 0]) False, Sys (Close accented_path) True]"
  by code_simp

subsection \<open>C10: what the caller gets back\<close>





end
